theory Spec2Isabelle
  imports Complex_Main "HOL-Library.Multiset"
begin

section \<open>Wash sale detection engine (src/src/App.jsx)\<close>

text \<open>
  The model starts at the array \<open>transactions\<close> that \<open>processTransactions\<close> has built
  from the CSV rows (lines 107-130) and follows the source from the sort on line 133.

  Numbers: the source computes with JavaScript numbers; quantities, prices and amounts are
  modelled as \<open>real\<close>, so rounding of binary floating point is not part of the model.

  Dates: a JavaScript \<open>Date\<close> is compared and subtracted through its time value, the
  number of milliseconds since the epoch, and is modelled as that \<open>int\<close>. The local time
  zone of the host is a parameter of the model.
\<close>

type_synonym date = int

definition msPerDay :: int where
  "msPerDay = 1000 * 60 * 60 * 24"

definition msPerHour :: int where
  "msPerHour = 1000 * 60 * 60"

subsection \<open>Local time\<close>

text \<open>
  A time zone has a standard offset from UTC, in milliseconds, and periods of daylight
  saving time, each from a UTC instant up to a later one, in which the offset is one hour
  more.
\<close>

datatype zone = Zone (standardOffset: int) (dstPeriods: "(int \<times> int) list")

definition inDst :: "zone \<Rightarrow> int \<Rightarrow> bool" where
  "inDst tz u = list_ex (\<lambda>(s, e). s \<le> u \<and> u < e) (dstPeriods tz)"

text \<open>
  \<open>LocalTZA(t, isUTC)\<close> of ECMAScript: the offset of the zone at the UTC instant \<open>t\<close>, or
  at the local time \<open>t\<close>. A local time that a transition skips or repeats is read with the
  offset before the transition, so a local time is in daylight saving time when the
  instant it would name under the daylight offset lies in a period.
\<close>

definition LocalTZA :: "zone \<Rightarrow> int \<Rightarrow> bool \<Rightarrow> int" where
  "LocalTZA tz t isUTC =
     (let u = (if isUTC then t else t - (standardOffset tz + msPerHour))
      in standardOffset tz + (if inDst tz u then msPerHour else 0))"

definition LocalTime :: "zone \<Rightarrow> int \<Rightarrow> int" where
  "LocalTime tz t = t + LocalTZA tz t True"

definition UTC :: "zone \<Rightarrow> int \<Rightarrow> int" where
  "UTC tz t = t - LocalTZA tz t False"

text \<open>
  \<open>d.setDate(d.getDate() + n)\<close> on a copy of the date \<open>d\<close>: \<open>setDate\<close> takes the local
  time of \<open>d\<close>, replaces its day of the month and keeps the time within the day, which
  moves the local time by \<open>n\<close> whole days, and converts back to UTC.
\<close>

definition addDays :: "zone \<Rightarrow> date \<Rightarrow> int \<Rightarrow> date" where
  "addDays tz d n = UTC tz (LocalTime tz d + n * msPerDay)"

text \<open>
  \<open>new Date(year, month - 1, day)\<close> of \<open>parseDate\<close> (lines 13-17): the date of local
  midnight of the calendar day with the given day number.
\<close>

definition dateOfDay :: "zone \<Rightarrow> int \<Rightarrow> date" where
  "dateOfDay tz n = UTC tz (n * msPerDay)"

datatype transType = Buy | Sell

record txn =
  t_date :: date
  t_ticker :: string
  transType :: transType
  t_quantity :: real
  t_price :: real
  amount :: real

record lot =
  lot_date :: date
  lot_quantity :: real
  lot_price :: real
  remaining :: real

record loss_sale =
  ls_ticker :: string
  saleDate :: date
  ls_quantity :: real
  salePrice :: real
  proceeds :: real
  costBasis :: real
  lossAmount :: real

record violation =
  v_ticker :: string
  lossSale :: loss_sale
  buyDate :: date
  buyQuantity :: real
  disallowedLoss :: real

text \<open>
  The warning string \<open>No buy lots found for ${ticker} sell on ${formatDate(date)}\<close> is kept
  as its two arguments.
\<close>

datatype warning = NoBuyLots string date

subsection \<open>Date helpers (lines 273-302)\<close>

definition isInWashWindow :: "zone \<Rightarrow> date \<Rightarrow> date \<Rightarrow> bool" where
  "isInWashWindow tz sd checkDate =
     (let windowStart = addDays tz sd (- 30);
          windowEnd = addDays tz sd 30
      in checkDate \<ge> windowStart \<and> checkDate \<le> windowEnd)"

definition getSafeDate :: "zone \<Rightarrow> date \<Rightarrow> date" where
  "getSafeDate tz sd = addDays tz sd 31"

text \<open>\<open>Math.ceil(diff / (1000 * 60 * 60 * 24))\<close>\<close>

definition daysUntil :: "date \<Rightarrow> date \<Rightarrow> int" where
  "daysUntil targetDate fromDate =
     (let diff = targetDate - fromDate
      in \<lceil>real_of_int diff / real_of_int msPerDay\<rceil>)"

subsection \<open>Sorting (lines 132-140)\<close>

text \<open>
  The comparator of the source. \<open>Array.prototype.sort\<close> is stable, and the comparator is a
  total preorder, so the sorted array is the one a stable insertion sort produces:
  each element, taken from the right, goes in front of the first element that does not
  compare below it.
\<close>

definition compareTxn :: "txn \<Rightarrow> txn \<Rightarrow> int" where
  "compareTxn a b =
     (let dateDiff = t_date a - t_date b
      in if dateDiff \<noteq> 0 then dateDiff
         else let aIsSell = (if transType a = Sell then 1 else 0);
                  bIsSell = (if transType b = Sell then 1 else 0)
              in aIsSell - bIsSell)"

fun insertTxn :: "txn \<Rightarrow> txn list \<Rightarrow> txn list" where
  "insertTxn x [] = [x]"
| "insertTxn x (y # ys) =
     (if compareTxn x y \<le> 0 then x # y # ys else y # insertTxn x ys)"

definition sortTxns :: "txn list \<Rightarrow> txn list" where
  "sortTxns xs = foldr insertTxn xs []"

subsection \<open>FIFO matching of one sell (lines 180-193)\<close>

record fifo =
  remainingToSell :: real
  totalCostBasis :: real
  quantitySold :: real

text \<open>
  The loop over \<open>tickerLots\<close>: \<open>break\<close> once nothing is left to sell, \<open>continue\<close> over a lot
  with nothing remaining, otherwise take from the lot. The lots are mutated in place, so
  the updated array is returned with the accumulators.
\<close>

fun matchLots :: "lot list \<Rightarrow> fifo \<Rightarrow> lot list \<times> fifo" where
  "matchLots [] acc = ([], acc)"
| "matchLots (l # ls) acc =
     (if remainingToSell acc \<le> 0 then (l # ls, acc)
      else if remaining l \<le> 0 then
        (let (ls', acc') = matchLots ls acc in (l # ls', acc'))
      else
        (let take = min (remaining l) (remainingToSell acc);
             l' = l\<lparr>remaining := remaining l - take\<rparr>;
             (ls', acc') = matchLots ls
                \<lparr>remainingToSell = remainingToSell acc - take,
                 totalCostBasis = totalCostBasis acc + take * lot_price l,
                 quantitySold = quantitySold acc + take\<rparr>
         in (l' # ls', acc')))"

subsection \<open>The single pass (lines 142-240)\<close>

text \<open>
  \<open>lots\<close> is the object mapping a ticker to its array of open lots; \<open>lossSales\<close>,
  \<open>violations\<close> and \<open>warnings\<close> are the arrays the pass pushes to.
\<close>

record state =
  lots :: "string \<Rightarrow> lot list option"
  lossSales :: "loss_sale list"
  violations :: "violation list"
  warnings :: "warning list"

text \<open>Lines 159-170: a buy is compared with every loss sale recorded so far.\<close>

fun forwardPass :: "zone \<Rightarrow> loss_sale list \<Rightarrow> txn \<Rightarrow> violation list \<Rightarrow> violation list" where
  "forwardPass tz [] t vs = vs"
| "forwardPass tz (ls # rest) t vs =
     (if ls_ticker ls = t_ticker t \<and> isInWashWindow tz (saleDate ls) (t_date t) then
        (let disallowed = min (t_quantity t) (ls_quantity ls) / ls_quantity ls * lossAmount ls
         in forwardPass tz rest t
              (vs @ [\<lparr>v_ticker = t_ticker t, lossSale = ls, buyDate = t_date t,
                      buyQuantity = t_quantity t, disallowedLoss = disallowed\<rparr>]))
      else forwardPass tz rest t vs)"

text \<open>Lines 218-222: \<open>violations.some(...)\<close> on the key (sale date, buy date, ticker).\<close>

definition alreadyRecorded :: "violation list \<Rightarrow> txn \<Rightarrow> txn \<Rightarrow> bool" where
  "alreadyRecorded vs t priorTxn =
     list_ex (\<lambda>v. saleDate (lossSale v) = t_date t \<and>
                   buyDate v = t_date priorTxn \<and>
                   v_ticker v = t_ticker t) vs"

text \<open>
  Lines 213-234: the new loss sale is compared with every buy of the whole sorted array
  that is dated before the sale.
\<close>

fun backwardPass ::
  "zone \<Rightarrow> txn list \<Rightarrow> txn \<Rightarrow> loss_sale \<Rightarrow> real \<Rightarrow> real \<Rightarrow> violation list \<Rightarrow> violation list" where
  "backwardPass tz [] t ls qSold gainLoss vs = vs"
| "backwardPass tz (priorTxn # rest) t ls qSold gainLoss vs =
     (if transType priorTxn = Buy \<and>
         t_ticker priorTxn = t_ticker t \<and>
         t_date priorTxn < t_date t \<and>
         isInWashWindow tz (t_date t) (t_date priorTxn) then
        (if \<not> alreadyRecorded vs t priorTxn then
           (let disallowed = min (t_quantity priorTxn) qSold / qSold * \<bar>gainLoss\<bar>
            in backwardPass tz rest t ls qSold gainLoss
                 (vs @ [\<lparr>v_ticker = t_ticker t, lossSale = ls, buyDate = t_date priorTxn,
                         buyQuantity = t_quantity priorTxn, disallowedLoss = disallowed\<rparr>]))
         else backwardPass tz rest t ls qSold gainLoss vs)
      else backwardPass tz rest t ls qSold gainLoss vs)"

text \<open>Lines 149-170.\<close>

definition processBuy :: "zone \<Rightarrow> state \<Rightarrow> txn \<Rightarrow> state" where
  "processBuy tz st t =
     (let old = (case lots st (t_ticker t) of None \<Rightarrow> [] | Some ls \<Rightarrow> ls);
          new = \<lparr>lot_date = t_date t, lot_quantity = t_quantity t,
                 lot_price = t_price t, remaining = t_quantity t\<rparr>
      in st\<lparr>lots := (lots st)(t_ticker t \<mapsto> old @ [new]),
            violations := forwardPass tz (lossSales st) t (violations st)\<rparr>)"

text \<open>
  Lines 172-239. The two \<open>continue\<close> statements leave before the clean-up of line 238;
  at the second one the lots of the ticker have been through the matching loop, which
  mutates them in place.
\<close>

definition processSell :: "zone \<Rightarrow> txn list \<Rightarrow> state \<Rightarrow> txn \<Rightarrow> state" where
  "processSell tz transactions st t =
     (let tickerLots = (case lots st (t_ticker t) of None \<Rightarrow> [] | Some ls \<Rightarrow> ls)
      in if length tickerLots = 0 then
           st\<lparr>warnings := warnings st @ [NoBuyLots (t_ticker t) (t_date t)]\<rparr>
         else
           (let (tickerLots', acc) = matchLots tickerLots
                   \<lparr>remainingToSell = t_quantity t, totalCostBasis = 0, quantitySold = 0\<rparr>
            in if quantitySold acc = 0 then
                 st\<lparr>lots := (lots st)(t_ticker t \<mapsto> tickerLots')\<rparr>
               else
                 (let prcds = amount t * (quantitySold acc / t_quantity t);
                      gainLoss = prcds - totalCostBasis acc;
                      st' = (if gainLoss < 0 then
                               (let ls = \<lparr>ls_ticker = t_ticker t, saleDate = t_date t,
                                          ls_quantity = quantitySold acc,
                                          salePrice = t_price t, proceeds = prcds,
                                          costBasis = totalCostBasis acc,
                                          lossAmount = \<bar>gainLoss\<bar>\<rparr>
                                in st\<lparr>lossSales := lossSales st @ [ls],
                                      violations := backwardPass tz transactions t ls
                                         (quantitySold acc) gainLoss (violations st)\<rparr>)
                             else st)
                  in st'\<lparr>lots := (lots st)(t_ticker t \<mapsto>
                            filter (\<lambda>l. remaining l > 0.0001) tickerLots')\<rparr>)))"

definition step :: "zone \<Rightarrow> txn list \<Rightarrow> state \<Rightarrow> txn \<Rightarrow> state" where
  "step tz transactions st t =
     (if transType t = Buy then processBuy tz st t else processSell tz transactions st t)"

definition initialState :: state where
  "initialState = \<lparr>lots = Map.empty, lossSales = [], violations = [], warnings = []\<rparr>"

text \<open>The loop of line 148 over a part \<open>ts\<close> of the sorted array \<open>transactions\<close>.\<close>

definition run :: "zone \<Rightarrow> txn list \<Rightarrow> state \<Rightarrow> txn list \<Rightarrow> state" where
  "run tz transactions st ts = foldl (step tz transactions) st ts"

subsection \<open>The report (lines 242-271, 705-711)\<close>

definition activeWindows :: "zone \<Rightarrow> loss_sale list \<Rightarrow> date \<Rightarrow> loss_sale list" where
  "activeWindows tz lss asOfDate =
     filter (\<lambda>ls. let safeDate = getSafeDate tz (saleDate ls) in safeDate > asOfDate) lss"

record report =
  r_transactions :: "txn list"
  r_lossSales :: "loss_sale list"
  r_violations :: "violation list"
  r_activeWindows :: "loss_sale list"
  r_warnings :: "warning list"

definition processTransactions :: "zone \<Rightarrow> txn list \<Rightarrow> date \<Rightarrow> report" where
  "processTransactions tz txns asOfDate =
     (let transactions = sortTxns txns;
          st = run tz transactions initialState transactions
      in \<lparr>r_transactions = transactions,
          r_lossSales = lossSales st,
          r_violations = violations st,
          r_activeWindows = activeWindows tz (lossSales st) asOfDate,
          r_warnings = warnings st\<rparr>)"

subsection \<open>The ticker check (lines 419-441)\<close>

text \<open>
  Strings are taken to be ASCII: \<open>trim\<close> removes the ASCII white space and line
  terminators, \<open>toUpperCase\<close> maps \<open>a\<close>..\<open>z\<close> to \<open>A\<close>..\<open>Z\<close>.
\<close>

definition isWhiteSpace :: "char \<Rightarrow> bool" where
  "isWhiteSpace c = (of_char c \<in> {9, 10, 11, 12, 13, 32 :: nat})"

definition trim :: "string \<Rightarrow> string" where
  "trim s = rev (dropWhile isWhiteSpace (rev (dropWhile isWhiteSpace s)))"

definition toUpperChar :: "char \<Rightarrow> char" where
  "toUpperChar c =
     (let n = of_char c :: nat in if 97 \<le> n \<and> n \<le> 122 then char_of (n - 32) else c)"

definition toUpperCase :: "string \<Rightarrow> string" where
  "toUpperCase s = map toUpperChar s"

datatype check_result =
  SafeResult string
| WarningResult string "loss_sale list" date int

text \<open>
  The component receives \<open>{...data, activeWindows}\<close> with the windows recomputed for the
  current reference date (line 871). \<open>None\<close> is the early return of line 420, which
  leaves the displayed result as it was.
\<close>

definition checkTicker :: "zone \<Rightarrow> string \<Rightarrow> loss_sale list option \<Rightarrow> date \<Rightarrow> check_result option" where
  "checkTicker tz ticker dataActiveWindows asOfDate =
     (case dataActiveWindows of
        None \<Rightarrow> None
      | Some windows \<Rightarrow>
          if trim ticker = [] then None
          else
            (let upperTicker = toUpperCase (trim ticker);
                 matchingWindows = filter (\<lambda>w. ls_ticker w = upperTicker) windows
             in if length matchingWindows = 0 then Some (SafeResult upperTicker)
                else
                  (let latestSafe = foldl (\<lambda>latest w.
                                       let safe = getSafeDate tz (saleDate w)
                                       in if safe > latest then safe else latest)
                                     0 matchingWindows
                   in Some (WarningResult upperTicker matchingWindows latestSafe
                              (daysUntil latestSafe asOfDate)))))"

subsection \<open>The specification's description of FIFO consumption\<close>

text \<open>
  Section 4.1 of the specification, in its own words: walk the queue from the head,
  consuming \<open>min(lot.remaining, stillNeeded)\<close> from each open lot in order. The list holds
  the \<open>remaining\<close> of each lot; the result is the quantity consumed from each.
\<close>

fun fifoConsume :: "real list \<Rightarrow> real \<Rightarrow> real list" where
  "fifoConsume [] stillNeeded = []"
| "fifoConsume (r # rs) stillNeeded =
     (let consumed = min r stillNeeded
      in consumed # fifoConsume rs (stillNeeded - consumed))"

subsection \<open>Notions used in the statements and proofs\<close>

text \<open>The order the comparator stands for: \<open>a\<close> may come before \<open>b\<close>.\<close>

definition txnLe :: "txn \<Rightarrow> txn \<Rightarrow> bool" where
  "txnLe a b = (compareTxn a b \<le> 0)"

text \<open>The deduplication key of lines 218-222.\<close>

definition violationKey :: "violation \<Rightarrow> string \<times> date \<times> date" where
  "violationKey v = (v_ticker v, saleDate (lossSale v), buyDate v)"

text \<open>The records pushed on lines 162-168 and 225-231.\<close>

definition forwardViolation :: "txn \<Rightarrow> loss_sale \<Rightarrow> violation" where
  "forwardViolation t ls =
     \<lparr>v_ticker = t_ticker t, lossSale = ls, buyDate = t_date t, buyQuantity = t_quantity t,
      disallowedLoss = min (t_quantity t) (ls_quantity ls) / ls_quantity ls * lossAmount ls\<rparr>"

text \<open>The test of lines 214-217 on a transaction \<open>p\<close> of the array, for the sell \<open>t\<close>.\<close>

definition backwardCandidate :: "zone \<Rightarrow> txn \<Rightarrow> txn \<Rightarrow> bool" where
  "backwardCandidate tz t p \<longleftrightarrow>
     transType p = Buy \<and> t_ticker p = t_ticker t \<and> t_date p < t_date t \<and>
     isInWashWindow tz (t_date t) (t_date p)"

definition backwardViolation :: "txn \<Rightarrow> loss_sale \<Rightarrow> real \<Rightarrow> real \<Rightarrow> txn \<Rightarrow> violation" where
  "backwardViolation t ls qSold gainLoss p =
     \<lparr>v_ticker = t_ticker t, lossSale = ls, buyDate = t_date p, buyQuantity = t_quantity p,
      disallowedLoss = min (t_quantity p) qSold / qSold * \<bar>gainLoss\<bar>\<rparr>"

text \<open>Every loss sale recorded so far is dated before every buy still to be processed.\<close>

definition salesBefore :: "state \<Rightarrow> txn list \<Rightarrow> bool" where
  "salesBefore st ts \<longleftrightarrow>
     (\<forall>ls \<in> set (lossSales st). \<forall>b \<in> set ts. transType b = Buy \<longrightarrow> saleDate ls < t_date b)"


text \<open>Every violation refers to a recorded loss sale and a buy of the input inside its window.\<close>

definition violationWf :: "zone \<Rightarrow> txn set \<Rightarrow> state \<Rightarrow> violation \<Rightarrow> bool" where
  "violationWf tz B st v \<longleftrightarrow>
     lossSale v \<in> set (lossSales st) \<and>
     v_ticker v = ls_ticker (lossSale v) \<and>
     isInWashWindow tz (saleDate (lossSale v)) (buyDate v) \<and>
     disallowedLoss v =
       min (buyQuantity v) (ls_quantity (lossSale v)) / ls_quantity (lossSale v)
         * lossAmount (lossSale v) \<and>
     (\<exists>b \<in> B. transType b = Buy \<and> t_ticker b = v_ticker v \<and> t_date b = buyDate v \<and>
              t_quantity b = buyQuantity v)"

text \<open>
  Example data, after the end-to-end example of the specification: trades of \<open>XYZ\<close> on
  a day counted from the epoch, and the loss sale of 100 shares bought at 10 and sold at 6
  on day 59.
\<close>

definition utcZone :: zone where
  "utcZone = Zone 0 []"

text \<open>
  New York around 2024: five hours behind UTC, and four from 2024-03-10 07:00 UTC up to
  2024-11-03 06:00 UTC.
\<close>

definition newYork2024 :: zone where
  "newYork2024 = Zone (- 18000000) [(1710054000000, 1730613600000)]"

text \<open>UTC midnight of the day \<open>n\<close> days after the epoch.\<close>

definition dayMs :: "int \<Rightarrow> date" where
  "dayMs n = n * msPerDay"

definition example_txn :: "int \<Rightarrow> transType \<Rightarrow> real \<Rightarrow> real \<Rightarrow> real \<Rightarrow> txn" where
  "example_txn day k q p a =
     \<lparr>t_date = dayMs day, t_ticker = ''XYZ'', transType = k, t_quantity = q,
      t_price = p, amount = a\<rparr>"

text \<open>The same trades at a given date.\<close>

definition example_txn_at :: "date \<Rightarrow> transType \<Rightarrow> real \<Rightarrow> real \<Rightarrow> real \<Rightarrow> txn" where
  "example_txn_at d k q p a =
     \<lparr>t_date = d, t_ticker = ''XYZ'', transType = k, t_quantity = q,
      t_price = p, amount = a\<rparr>"

definition example_lossSale :: loss_sale where
  "example_lossSale =
     \<lparr>ls_ticker = ''XYZ'', saleDate = dayMs 59, ls_quantity = 100, salePrice = 6,
      proceeds = 600, costBasis = 1000, lossAmount = 400\<rparr>"

text \<open>
  The specification's matching rule for the ticker check, in its own words: a
  case-insensitive exact comparison of two tickers.
\<close>

definition caseInsensitiveEq :: "string \<Rightarrow> string \<Rightarrow> bool" where
  "caseInsensitiveEq a b = (toUpperCase a = toUpperCase b)"

text \<open>
  The example loss sale dated at local midnight of 2024-10-15 and of 2024-10-04 in New
  York; the clocks go back on 2024-11-03, 19 and 30 days later.
\<close>

definition newYorkLossSale :: loss_sale where
  "newYorkLossSale = example_lossSale\<lparr>saleDate := 1728964800000\<rparr>"

definition fallBackLossSale :: loss_sale where
  "fallBackLossSale = example_lossSale\<lparr>saleDate := 1728014400000\<rparr>"

text \<open>
  Santiago de Chile around 2024: four hours behind UTC, and three from 2024-09-08 04:00 UTC
  up to 2025-04-06 03:00 UTC. The clocks go forward at local midnight, so the local times
  from 0:00 to 1:00 of 2024-09-08, the day 19974 after the epoch, do not exist. The example
  loss sale dated on that day.
\<close>

definition santiago2024 :: zone where
  "santiago2024 = Zone (- 14400000) [(1725768000000, 1743908400000)]"

definition santiagoLossSale :: loss_sale where
  "santiagoLossSale = example_lossSale\<lparr>saleDate := 1725768000000\<rparr>"

text \<open>The example loss sale with a lower-case ticker, and dated before the epoch.\<close>

definition lowerCaseLossSale :: loss_sale where
  "lowerCaseLossSale = example_lossSale\<lparr>ls_ticker := ''aapl''\<rparr>"

definition preEpochLossSale :: loss_sale where
  "preEpochLossSale = example_lossSale\<lparr>saleDate := dayMs (- 100)\<rparr>"

text \<open>\<open>lots[ticker] || []\<close>\<close>

definition queue :: "state \<Rightarrow> string \<Rightarrow> lot list" where
  "queue st ticker = (case lots st ticker of None \<Rightarrow> [] | Some ls \<Rightarrow> ls)"

text \<open>The state after the buy of 100 shares at 10.\<close>

definition afterFirstBuy :: state where
  "afterFirstBuy = processBuy utcZone initialState (example_txn 0 Buy 100 10 (- 1000))"

text \<open>Every lot of every queue is open.\<close>

definition lotsOpen :: "state \<Rightarrow> bool" where
  "lotsOpen st \<longleftrightarrow> (\<forall>ticker. \<forall>l \<in> set (queue st ticker). 0 < remaining l)"

text \<open>A sell, a buy of a ticker on a day.\<close>

definition sellOn :: "string \<Rightarrow> date \<Rightarrow> txn \<Rightarrow> bool" where
  "sellOn ticker d t \<longleftrightarrow> transType t = Sell \<and> t_ticker t = ticker \<and> t_date t = d"

definition buyOn :: "string \<Rightarrow> date \<Rightarrow> txn \<Rightarrow> bool" where
  "buyOn ticker d t \<longleftrightarrow> transType t = Buy \<and> t_ticker t = ticker \<and> t_date t = d"

text \<open>
  The invariant behind the same-day rule: no warning for the ticker and day so far, and
  either no sell of that ticker and day is left, or a buy of that ticker and day is still
  to come, or its lot is in the queue and only its day or later days are left.
\<close>

definition sameDayInv :: "string \<Rightarrow> date \<Rightarrow> state \<Rightarrow> txn list \<Rightarrow> bool" where
  "sameDayInv ticker d st ts \<longleftrightarrow>
     NoBuyLots ticker d \<notin> set (warnings st) \<and>
     length (filter (sellOn ticker d) ts) \<le> 1 \<and>
     (filter (sellOn ticker d) ts = [] \<or>
      (\<exists>b \<in> set ts. buyOn ticker d b) \<or>
      (queue st ticker \<noteq> [] \<and> (\<forall>x \<in> set ts. d \<le> t_date x)))"

text \<open>Every queue is in acquisition order: the lots are dated in non-decreasing order.\<close>

definition queuesByDate :: "state \<Rightarrow> txn list \<Rightarrow> bool" where
  "queuesByDate st ts \<longleftrightarrow>
     (\<forall>ticker. sorted (map lot_date (queue st ticker)) \<and>
        (\<forall>l \<in> set (queue st ticker). \<forall>x \<in> set ts. lot_date l \<le> t_date x))"

text \<open>The state after the buys of 10 shares at 5 and of 10 shares at 7.\<close>

definition afterTwoBuys :: state where
  "afterTwoBuys =
     processBuy utcZone (processBuy utcZone initialState (example_txn 0 Buy 10 5 (- 50)))
       (example_txn 1 Buy 10 7 (- 70))"

section \<open>Properties\<close>

subsection \<open>Calendar days in local time\<close>

text \<open>
  The offsets of a zone differ by at most an hour, so a shift by whole calendar days is
  strictly monotone in the number of days, whatever clock changes lie in between.
\<close>

lemma LocalTZA_cases:
  "LocalTZA tz t b = standardOffset tz \<or> LocalTZA tz t b = standardOffset tz + msPerHour"
  by (simp add: LocalTZA_def Let_def)

lemma LocalTZA_band: "\<bar>LocalTZA tz a x - LocalTZA tz b y\<bar> \<le> msPerHour"
  using LocalTZA_cases [of tz a x] LocalTZA_cases [of tz b y]
  by (auto simp: msPerHour_def)

lemma addDays_eq:
  "addDays tz d k =
     d + k * msPerDay + (LocalTZA tz d True - LocalTZA tz (LocalTime tz d + k * msPerDay) False)"
  by (simp add: addDays_def UTC_def LocalTime_def)

lemma addDays_near: "\<bar>addDays tz d k - (d + k * msPerDay)\<bar> \<le> msPerHour"
  using LocalTZA_band [of tz d True "LocalTime tz d + k * msPerDay" False]
  by (simp add: addDays_eq)

lemma addDays_diff:
  "addDays tz d k - addDays tz d j =
     (k - j) * msPerDay
       - (LocalTZA tz (LocalTime tz d + k * msPerDay) False
            - LocalTZA tz (LocalTime tz d + j * msPerDay) False)"
  by (simp add: addDays_eq algebra_simps)

lemma hour_less_day: "msPerHour < msPerDay"
  by (simp add: msPerHour_def msPerDay_def)

lemma days_apart: "j < k \<Longrightarrow> msPerDay \<le> (k - j) * msPerDay" for j k :: int
proof -
  assume "j < k"
  then have "1 \<le> k - j" by simp
  then have "1 * msPerDay \<le> (k - j) * msPerDay"
    by (intro mult_right_mono) (simp_all add: msPerDay_def)
  then show ?thesis by simp
qed

lemma addDays_strict_mono:
  assumes "j < k"
  shows "addDays tz d j < addDays tz d k"
proof -
  have "LocalTZA tz (LocalTime tz d + k * msPerDay) False
            - LocalTZA tz (LocalTime tz d + j * msPerDay) False \<le> msPerHour"
    using LocalTZA_band [of tz "LocalTime tz d + k * msPerDay" False
        "LocalTime tz d + j * msPerDay" False] by simp
  with days_apart [OF assms] hour_less_day have "0 < addDays tz d k - addDays tz d j"
    unfolding addDays_diff by linarith
  then show ?thesis by simp
qed

lemma addDays_less_iff: "addDays tz d j < addDays tz d k \<longleftrightarrow> j < k"
  using addDays_strict_mono [of j k tz d] addDays_strict_mono [of k j tz d]
  by (cases j k rule: linorder_cases) auto

lemma addDays_le_iff: "addDays tz d j \<le> addDays tz d k \<longleftrightarrow> j \<le> k"
  using addDays_less_iff [of tz d k j] by auto

lemma addDays_after: "0 < k \<Longrightarrow> d < addDays tz d k"
proof -
  assume "0 < k"
  from days_apart [OF this] have "msPerDay \<le> k * msPerDay" by simp
  with addDays_near [of tz d k] hour_less_day show ?thesis by linarith
qed

lemma addDays_before: "k < 0 \<Longrightarrow> addDays tz d k < d"
proof -
  assume "k < 0"
  from days_apart [OF this] have "k * msPerDay \<le> - msPerDay" by simp
  with addDays_near [of tz d k] hour_less_day show ?thesis by linarith
qed

lemma isInWashWindow_iff:
  "isInWashWindow tz d c \<longleftrightarrow> addDays tz d (- 30) \<le> c \<and> c \<le> addDays tz d 30"
  by (simp add: isInWashWindow_def Let_def)

lemma isInWashWindow_refl: "isInWashWindow tz d d"
  using addDays_after [of 30 d tz] addDays_before [of "- 30" tz d]
  by (simp add: isInWashWindow_iff)

lemma isInWashWindow_addDays:
  "isInWashWindow tz d (addDays tz d k) \<longleftrightarrow> - 30 \<le> k \<and> k \<le> 30"
  by (simp add: isInWashWindow_iff addDays_le_iff)

lemma addDays_not_same: "k \<noteq> 0 \<Longrightarrow> addDays tz d k \<noteq> d"
  using addDays_after [of k d tz] addDays_before [of k tz d] by (cases "0 < k") auto

text \<open>
  A sale dated at a local midnight that exists: the date \<open>k\<close> calendar days away is the
  one that \<open>parseDate\<close> builds for that calendar day.
\<close>

lemma addDays_dateOfDay:
  "LocalTime tz (dateOfDay tz n) = n * msPerDay \<Longrightarrow>
   addDays tz (dateOfDay tz n) k = dateOfDay tz (n + k)"
  by (simp add: addDays_def dateOfDay_def algebra_simps)

lemma addDays_utcZone: "addDays utcZone d k = d + k * msPerDay"
  by (simp add: addDays_def UTC_def LocalTime_def LocalTZA_def utcZone_def inDst_def Let_def)

lemma dayMs_utcZone: "addDays utcZone (dayMs n) k = dayMs (n + k)"
  by (simp add: addDays_utcZone dayMs_def algebra_simps)

subsection \<open>FIFO matching\<close>

lemma fifoConsume_zero:
  "\<forall>r \<in> set rs. 0 < r \<Longrightarrow> fifoConsume rs 0 = map (\<lambda>_. 0) rs"
  by (induction rs) (simp_all add: min_def)

lemma sum_list_zeros: "sum_list (map (\<lambda>_. 0::real) xs) = 0"
  by (induction xs) simp_all

lemma sum_list_zip_zeros: "sum_list (map2 (*) (map (\<lambda>_. 0::real) xs) ys) = 0"
proof (induction xs arbitrary: ys)
  case Nil
  show ?case by simp
next
  case (Cons x xs)
  then show ?case by (cases ys) simp_all
qed

lemma map2_minus_zeros: "map2 (-) xs (map (\<lambda>_. 0::real) xs) = xs"
  by (induction xs) simp_all

lemma matchLots_length: "matchLots ls acc = (ls', acc') \<Longrightarrow> length ls' = length ls"
  by (induction ls acc arbitrary: ls' acc' rule: matchLots.induct)
     (auto simp: Let_def split: if_splits prod.splits)

lemma matchLots_consumes:
  assumes "matchLots ls acc = (ls', acc')"
    and "\<forall>l \<in> set ls. 0 < remaining l"
    and "0 \<le> remainingToSell acc"
  shows "map remaining ls' =
           map2 (-) (map remaining ls) (fifoConsume (map remaining ls) (remainingToSell acc)) \<and>
         totalCostBasis acc' = totalCostBasis acc +
           sum_list (map2 (*) (fifoConsume (map remaining ls) (remainingToSell acc))
                              (map lot_price ls)) \<and>
         quantitySold acc' = quantitySold acc +
           sum_list (fifoConsume (map remaining ls) (remainingToSell acc)) \<and>
         remainingToSell acc' = remainingToSell acc -
           sum_list (fifoConsume (map remaining ls) (remainingToSell acc))"
  using assms
proof (induction ls arbitrary: acc ls' acc')
  case Nil
  then show ?case by simp
next
  case (Cons l ls)
  show ?case
  proof (cases "remainingToSell acc \<le> 0")
    case True
    with Cons.prems(3) have z: "remainingToSell acc = 0" by simp
    from Cons.prems(1) True have eq: "ls' = l # ls" "acc' = acc" by simp_all
    have pos: "\<forall>r \<in> set (map remaining (l # ls)). 0 < r" using Cons.prems(2) by simp
    have fc: "fifoConsume (map remaining (l # ls)) 0 = map (\<lambda>_. 0) (map remaining (l # ls))"
      by (rule fifoConsume_zero [OF pos])
    show ?thesis unfolding z fc eq
      by (simp only: sum_list_zeros sum_list_zip_zeros map2_minus_zeros) simp
  next
    case False
    have lpos: "0 < remaining l" using Cons.prems(2) by simp
    define take where "take = min (remaining l) (remainingToSell acc)"
    define acc1 where "acc1 = \<lparr>remainingToSell = remainingToSell acc - take,
                 totalCostBasis = totalCostBasis acc + take * lot_price l,
                 quantitySold = quantitySold acc + take\<rparr>"
    obtain ls1 acc2 where m: "matchLots ls acc1 = (ls1, acc2)" by (cases "matchLots ls acc1")
    from Cons.prems(1) False lpos m
    have eq: "ls' = l\<lparr>remaining := remaining l - take\<rparr> # ls1" "acc' = acc2"
      by (simp_all add: Let_def take_def acc1_def)
    have nn: "0 \<le> remainingToSell acc1" by (simp add: acc1_def take_def)
    have open_rest: "\<forall>l \<in> set ls. 0 < remaining l" using Cons.prems(2) by simp
    note ih = Cons.IH [OF m open_rest nn]
    have r1: "remainingToSell acc1 = remainingToSell acc - take"
      and c1: "totalCostBasis acc1 = totalCostBasis acc + take * lot_price l"
      and q1: "quantitySold acc1 = quantitySold acc + take"
      by (simp_all add: acc1_def)
    have fc: "fifoConsume (map remaining (l # ls)) (remainingToSell acc) =
                take # fifoConsume (map remaining ls) (remainingToSell acc - take)"
      by (simp add: take_def Let_def)
    show ?thesis unfolding fc eq using ih unfolding r1 c1 q1 by simp
  qed
qed

lemma matchLots_fields:
  "matchLots ls acc = (ls', acc') \<Longrightarrow>
     map lot_price ls' = map lot_price ls \<and> map lot_date ls' = map lot_date ls \<and>
     map lot_quantity ls' = map lot_quantity ls"
  by (induction ls acc arbitrary: ls' acc' rule: matchLots.induct)
     (auto simp: Let_def split: if_splits prod.splits)

subsection \<open>Sorting\<close>

lemma txnLe_iff:
  "txnLe a b \<longleftrightarrow>
     t_date a < t_date b \<or> (t_date a = t_date b \<and> (transType a = Buy \<or> transType b = Sell))"
  by (cases "transType a"; cases "transType b") (auto simp: txnLe_def compareTxn_def Let_def)

lemma txnLe_total: "txnLe a b \<or> txnLe b a"
  by (auto simp: txnLe_iff) (metis transType.exhaust)+

lemma txnLe_trans: "txnLe a b \<Longrightarrow> txnLe b c \<Longrightarrow> txnLe a c"
  by (auto simp: txnLe_iff)

lemma set_insertTxn: "set (insertTxn x ys) = insert x (set ys)"
  by (induction ys) auto

lemma mset_insertTxn: "mset (insertTxn x ys) = add_mset x (mset ys)"
  by (induction ys) auto

lemma sorted_insertTxn:
  "sorted_wrt txnLe ys \<Longrightarrow> sorted_wrt txnLe (insertTxn x ys)"
proof (induction ys)
  case Nil
  show ?case by simp
next
  case (Cons y ys)
  show ?case
  proof (cases "compareTxn x y \<le> 0")
    case True
    then have xy: "txnLe x y" by (simp add: txnLe_def)
    have "\<forall>z \<in> set ys. txnLe x z" using Cons.prems xy txnLe_trans by auto
    with True xy Cons.prems show ?thesis by simp
  next
    case False
    then have yx: "txnLe y x" using txnLe_total [of x y] by (simp add: txnLe_def)
    from Cons have "sorted_wrt txnLe (insertTxn x ys)" by simp
    with False yx Cons.prems show ?thesis by (simp add: set_insertTxn)
  qed
qed

lemma mset_sortTxns: "mset (sortTxns xs) = mset xs"
  by (induction xs) (simp_all add: sortTxns_def mset_insertTxn)

lemma set_sortTxns: "set (sortTxns xs) = set xs"
  by (induction xs) (simp_all add: sortTxns_def set_insertTxn)

lemma sorted_sortTxns: "sorted_wrt txnLe (sortTxns xs)"
  by (induction xs) (simp_all add: sortTxns_def sorted_insertTxn)

subsection \<open>One step of the pass\<close>

lemma forwardPass_eq:
  "forwardPass tz lss t vs =
     vs @ map (forwardViolation t)
            (filter (\<lambda>ls. ls_ticker ls = t_ticker t \<and> isInWashWindow tz (saleDate ls) (t_date t)) lss)"
  by (induction lss arbitrary: vs) (simp_all add: Let_def forwardViolation_def)

lemma alreadyRecorded_iff:
  "alreadyRecorded vs t p \<longleftrightarrow> (t_ticker t, t_date t, t_date p) \<in> violationKey ` set vs"
  by (force simp: alreadyRecorded_def list_ex_iff violationKey_def image_iff)

lemma processBuy_simps:
  "lossSales (processBuy tz st t) = lossSales st"
  "warnings (processBuy tz st t) = warnings st"
  "violations (processBuy tz st t) = forwardPass tz (lossSales st) t (violations st)"
  by (simp_all add: processBuy_def Let_def)

text \<open>What one sell does to the loss sales and the violations.\<close>

lemma processSell_cases:
  obtains (skip) "lossSales (processSell tz T st t) = lossSales st"
                 "violations (processSell tz T st t) = violations st"
  | (loss) ls where "lossSales (processSell tz T st t) = lossSales st @ [ls]"
                 "violations (processSell tz T st t) =
                    backwardPass tz T t ls (ls_quantity ls) (- lossAmount ls) (violations st)"
                 "ls_ticker ls = t_ticker t" "saleDate ls = t_date t"
                 "0 < lossAmount ls" "ls_quantity ls \<noteq> 0"
                 "lossAmount ls = costBasis ls - proceeds ls"
proof -
  define tickerLots where "tickerLots = (case lots st (t_ticker t) of None \<Rightarrow> [] | Some ls \<Rightarrow> ls)"
  obtain ls' acc where m: "matchLots tickerLots
      \<lparr>remainingToSell = t_quantity t, totalCostBasis = 0, quantitySold = 0\<rparr> = (ls', acc)"
    by (cases "matchLots tickerLots
      \<lparr>remainingToSell = t_quantity t, totalCostBasis = 0, quantitySold = 0\<rparr>")
  define gainLoss where "gainLoss = amount t * (quantitySold acc / t_quantity t) - totalCostBasis acc"
  show thesis
  proof (cases "tickerLots \<noteq> [] \<and> quantitySold acc \<noteq> 0 \<and> gainLoss < 0")
    case False
    have "lossSales (processSell tz T st t) = lossSales st \<and>
          violations (processSell tz T st t) = violations st"
      using False m
      by (auto simp: processSell_def Let_def tickerLots_def [symmetric] gainLoss_def)
    then show thesis using skip by blast
  next
    case True
    define ls where "ls = \<lparr>ls_ticker = t_ticker t, saleDate = t_date t,
                                          ls_quantity = quantitySold acc,
                                          salePrice = t_price t, proceeds = amount t * (quantitySold acc / t_quantity t),
                                          costBasis = totalCostBasis acc,
                                          lossAmount = \<bar>gainLoss\<bar>\<rparr>"
    have gl: "gainLoss = - lossAmount ls" using True by (simp add: ls_def)
    have "lossSales (processSell tz T st t) = lossSales st @ [ls] \<and>
          violations (processSell tz T st t) =
            backwardPass tz T t ls (quantitySold acc) gainLoss (violations st)"
      using True m
      by (simp add: processSell_def Let_def tickerLots_def [symmetric] gainLoss_def ls_def)
    moreover have "ls_quantity ls = quantitySold acc" by (simp add: ls_def)
    moreover have "ls_ticker ls = t_ticker t" "saleDate ls = t_date t" by (simp_all add: ls_def)
    moreover have "0 < lossAmount ls" "ls_quantity ls \<noteq> 0" using True by (simp_all add: ls_def)
    moreover have "lossAmount ls = costBasis ls - proceeds ls" using True by (simp add: ls_def gainLoss_def)
    ultimately show thesis using loss gl by metis
  qed
qed

lemma processSell_warnings:
  "warnings (processSell tz T st t) =
     (if lots st (t_ticker t) = None \<or> lots st (t_ticker t) = Some []
      then warnings st @ [NoBuyLots (t_ticker t) (t_date t)] else warnings st)"
  by (auto simp: processSell_def Let_def split: option.splits prod.splits)

lemma run_Nil: "run tz T st [] = st"
  by (simp add: run_def)

lemma run_Cons: "run tz T st (t # ts) = run tz T (step tz T st t) ts"
  by (simp add: run_def)

lemma run_invariant:
  assumes "sorted_wrt txnLe ts" and "I st ts"
    and "\<And>st t rest. sorted_wrt txnLe (t # rest) \<Longrightarrow> I st (t # rest) \<Longrightarrow> I (step tz T st t) rest"
  shows "I (run tz T st ts) []"
  using assms(1,2)
proof (induction ts arbitrary: st)
  case Nil
  then show ?case by (simp add: run_Nil)
next
  case (Cons t ts)
  have "I (step tz T st t) ts" using assms(3) Cons.prems by blast
  moreover have "sorted_wrt txnLe ts" using Cons.prems(1) by simp
  ultimately show ?case using Cons.IH by (simp add: run_Cons)
qed

subsection \<open>The backward pass\<close>

lemma backwardPass_Cons:
  "backwardPass tz (p # ps) t ls q g vs =
     backwardPass tz ps t ls q g
       (if backwardCandidate tz t p \<and> \<not> alreadyRecorded vs t p
        then vs @ [backwardViolation t ls q g p] else vs)"
  by (simp add: backwardCandidate_def backwardViolation_def Let_def)

lemma backwardPass_shape:
  "\<exists>new. backwardPass tz ps t ls q g vs = vs @ new \<and>
         set new \<subseteq> backwardViolation t ls q g ` {p \<in> set ps. backwardCandidate tz t p}"
proof (induction ps arbitrary: vs)
  case Nil
  show ?case by simp
next
  case (Cons p ps)
  define vs1 where "vs1 = (if backwardCandidate tz t p \<and> \<not> alreadyRecorded vs t p
        then vs @ [backwardViolation t ls q g p] else vs)"
  obtain new where n: "backwardPass tz ps t ls q g vs1 = vs1 @ new"
    "set new \<subseteq> backwardViolation t ls q g ` {p \<in> set ps. backwardCandidate tz t p}"
    using Cons.IH by blast
  show ?case
  proof (cases "backwardCandidate tz t p \<and> \<not> alreadyRecorded vs t p")
    case True
    then have "backwardPass tz (p # ps) t ls q g vs = vs @ (backwardViolation t ls q g p # new)"
      using n(1) by (simp add: backwardPass_Cons vs1_def del: backwardPass.simps)
    moreover have "set (backwardViolation t ls q g p # new) \<subseteq>
        backwardViolation t ls q g ` {p' \<in> set (p # ps). backwardCandidate tz t p'}"
      using n(2) True by auto
    ultimately show ?thesis by blast
  next
    case False
    then have "backwardPass tz (p # ps) t ls q g vs = vs @ new"
      using n(1) by (simp add: backwardPass_Cons vs1_def del: backwardPass.simps)
    moreover have "set new \<subseteq>
        backwardViolation t ls q g ` {p' \<in> set (p # ps). backwardCandidate tz t p'}"
      using n(2) by auto
    ultimately show ?thesis by blast
  qed
qed


lemma backwardPass_mono: "set vs \<subseteq> set (backwardPass tz ps t ls q g vs)"
  using backwardPass_shape [of tz ps t ls q g vs] by auto

lemma backwardPass_records:
  assumes "saleDate ls = t_date t" and "p \<in> set ps" and "backwardCandidate tz t p"
  shows "(t_ticker t, t_date t, t_date p) \<in> violationKey ` set (backwardPass tz ps t ls q g vs)"
  using assms(2)
proof (induction ps arbitrary: vs)
  case Nil
  then show ?case by simp
next
  case (Cons x ps)
  define vs1 where "vs1 = (if backwardCandidate tz t x \<and> \<not> alreadyRecorded vs t x
        then vs @ [backwardViolation t ls q g x] else vs)"
  have bp: "backwardPass tz (x # ps) t ls q g vs = backwardPass tz ps t ls q g vs1"
    by (simp add: backwardPass_Cons vs1_def del: backwardPass.simps)
  show ?case
  proof (cases "p = x")
    case True
    have key: "violationKey (backwardViolation t ls q g p) = (t_ticker t, t_date t, t_date p)"
      using assms(1) by (simp add: violationKey_def backwardViolation_def)
    have "(t_ticker t, t_date t, t_date p) \<in> violationKey ` set vs1"
    proof (cases "alreadyRecorded vs t p")
      case True
      then show ?thesis using \<open>p = x\<close> assms(3) by (simp add: vs1_def alreadyRecorded_iff)
    next
      case False
      then show ?thesis using \<open>p = x\<close> assms(3) key by (simp add: vs1_def)
    qed
    then show ?thesis unfolding bp using backwardPass_mono [of vs1 tz ps t ls q g] by blast
  next
    case False
    with Cons.prems have "p \<in> set ps" by simp
    then show ?thesis unfolding bp by (rule Cons.IH)
  qed
qed

subsection \<open>Loss sales precede the buys still to come\<close>

lemma step_Buy: "transType t = Buy \<Longrightarrow> step tz T st t = processBuy tz st t"
  by (simp add: step_def)

lemma step_Sell: "transType t = Sell \<Longrightarrow> step tz T st t = processSell tz T st t"
  by (simp add: step_def)

lemma step_lossSales_mono: "set (lossSales st) \<subseteq> set (lossSales (step tz T st t))"
proof (cases "transType t")
  case Buy
  then show ?thesis by (simp add: step_Buy processBuy_simps)
next
  case Sell
  show ?thesis unfolding step_Sell [OF Sell]
    by (rule processSell_cases [of tz T st t]) auto
qed

lemma step_violations_mono: "set (violations st) \<subseteq> set (violations (step tz T st t))"
proof (cases "transType t")
  case Buy
  then show ?thesis by (simp add: step_Buy processBuy_simps forwardPass_eq)
next
  case Sell
  show ?thesis unfolding step_Sell [OF Sell]
    by (rule processSell_cases [of tz T st t]) (use backwardPass_mono in auto)
qed

lemma step_new_lossSale:
  assumes "ls \<in> set (lossSales (step tz T st t))" and "ls \<notin> set (lossSales st)"
  shows "transType t = Sell \<and> saleDate ls = t_date t \<and> ls_ticker ls = t_ticker t"
proof (cases "transType t")
  case Buy
  with assms show ?thesis by (simp add: step_Buy processBuy_simps)
next
  case Sell
  show ?thesis using assms unfolding step_Sell [OF Sell]
    by (rule_tac processSell_cases [of tz T st t]) (use Sell in auto)
qed

lemma step_salesBefore:
  assumes "sorted_wrt txnLe (t # rest)" and "salesBefore st (t # rest)"
  shows "salesBefore (step tz T st t) rest"
  unfolding salesBefore_def
proof (intro ballI impI)
  fix ls b
  assume ls: "ls \<in> set (lossSales (step tz T st t))" and b: "b \<in> set rest" "transType b = Buy"
  show "saleDate ls < t_date b"
  proof (cases "ls \<in> set (lossSales st)")
    case True
    with assms(2) b show ?thesis by (simp add: salesBefore_def)
  next
    case False
    from step_new_lossSale [OF ls False]
    have s: "transType t = Sell" "saleDate ls = t_date t" by simp_all
    from assms(1) b(1) have "txnLe t b" by simp
    with s b(2) show ?thesis by (simp add: txnLe_iff)
  qed
qed

lemma run_salesBefore_invariant:
  assumes "sorted_wrt txnLe ts" and "salesBefore st ts" and "I st"
    and "\<And>st t rest. salesBefore st (t # rest) \<Longrightarrow> I st \<Longrightarrow> I (step tz T st t)"
  shows "I (run tz T st ts)"
proof -
  have "salesBefore (run tz T st ts) [] \<and> I (run tz T st ts)"
  proof (rule run_invariant [where I = "\<lambda>st ts. salesBefore st ts \<and> I st", OF assms(1)])
    show "salesBefore st ts \<and> I st" using assms(2,3) by simp
  next
    fix st t rest
    assume "sorted_wrt txnLe (t # rest)" and "salesBefore st (t # rest) \<and> I st"
    then show "salesBefore (step tz T st t) rest \<and> I (step tz T st t)"
      using step_salesBefore assms(4) by blast
  qed
  then show ?thesis by simp
qed

lemma salesBefore_initial: "salesBefore initialState ts"
  by (simp add: salesBefore_def initialState_def)

text \<open>A violation of the forward pass has its buy after the sale, one of the backward pass before.\<close>

lemma step_new_violation:
  assumes "salesBefore st (t # rest)"
    and "v \<in> set (violations (step tz T st t))" and "v \<notin> set (violations st)"
  shows "(transType t = Buy \<and> saleDate (lossSale v) < buyDate v) \<or>
         (transType t = Sell \<and> buyDate v < saleDate (lossSale v))"
proof (cases "transType t")
  case Buy
  from assms(2,3) obtain ls where ls: "ls \<in> set (lossSales st)" "v = forwardViolation t ls"
    by (auto simp: step_Buy [OF Buy] processBuy_simps forwardPass_eq)
  from assms(1) ls(1) Buy have "saleDate ls < t_date t" by (simp add: salesBefore_def)
  with ls(2) Buy show ?thesis by (simp add: forwardViolation_def)
next
  case Sell
  show ?thesis
  proof (rule processSell_cases [of tz T st t])
    assume "violations (processSell tz T st t) = violations st"
    with assms(2,3) Sell show ?thesis by (simp add: step_Sell)
  next
    fix ls
    assume v: "violations (processSell tz T st t) =
                 backwardPass tz T t ls (ls_quantity ls) (- lossAmount ls) (violations st)"
      and sd: "saleDate ls = t_date t"
    obtain new where n: "backwardPass tz T t ls (ls_quantity ls) (- lossAmount ls) (violations st)
                          = violations st @ new"
      "set new \<subseteq> backwardViolation t ls (ls_quantity ls) (- lossAmount ls) `
                    {p \<in> set T. backwardCandidate tz t p}"
      using backwardPass_shape by blast
    from assms(2,3) v n Sell obtain p where "backwardCandidate tz t p"
      "v = backwardViolation t ls (ls_quantity ls) (- lossAmount ls) p"
      by (auto simp: step_Sell)
    with sd Sell show ?thesis by (simp add: backwardViolation_def backwardCandidate_def)
  qed
qed

lemma run_no_same_day:
  assumes "sorted_wrt txnLe ts" and "salesBefore st ts"
    and "\<forall>v \<in> set (violations st). buyDate v \<noteq> saleDate (lossSale v)"
  shows "\<forall>v \<in> set (violations (run tz T st ts)). buyDate v \<noteq> saleDate (lossSale v)"
proof (rule run_salesBefore_invariant
    [where I = "\<lambda>st. \<forall>v \<in> set (violations st). buyDate v \<noteq> saleDate (lossSale v)",
      OF assms(1,2,3)])
  fix st t rest
  assume sb: "salesBefore st (t # rest)"
    and inv: "\<forall>v \<in> set (violations st). buyDate v \<noteq> saleDate (lossSale v)"
  show "\<forall>v \<in> set (violations (step tz T st t)). buyDate v \<noteq> saleDate (lossSale v)"
  proof
    fix v assume v: "v \<in> set (violations (step tz T st t))"
    show "buyDate v \<noteq> saleDate (lossSale v)"
    proof (cases "v \<in> set (violations st)")
      case True
      with inv show ?thesis by simp
    next
      case False
      from step_new_violation [OF sb v False] show ?thesis by auto
    qed
  qed
qed

subsection \<open>Deduplication and the backward pass over a run\<close>

lemma run_lossSales_mono: "set (lossSales st) \<subseteq> set (lossSales (run tz T st ts))"
proof (induction ts arbitrary: st)
  case Nil
  show ?case by (simp add: run_Nil)
next
  case (Cons t ts)
  show ?case using step_lossSales_mono [of st tz T t] Cons.IH [of "step tz T st t"]
    by (auto simp: run_Cons)
qed

lemma run_violations_mono: "set (violations st) \<subseteq> set (violations (run tz T st ts))"
proof (induction ts arbitrary: st)
  case Nil
  show ?case by (simp add: run_Nil)
next
  case (Cons t ts)
  show ?case using step_violations_mono [of st tz T t] Cons.IH [of "step tz T st t"]
    by (auto simp: run_Cons)
qed



text \<open>The backward pass records every earlier buy inside the window of a new loss sale.\<close>

lemma step_backward_records:
  assumes "b \<in> set T" and "transType b = Buy" and "t_ticker b = ls_ticker ls"
    and "t_date b < saleDate ls" and "isInWashWindow tz (saleDate ls) (t_date b)"
    and "ls \<in> set (lossSales st) \<longrightarrow>
           (ls_ticker ls, saleDate ls, t_date b) \<in> violationKey ` set (violations st)"
  shows "ls \<in> set (lossSales (step tz T st t)) \<longrightarrow>
           (ls_ticker ls, saleDate ls, t_date b) \<in> violationKey ` set (violations (step tz T st t))"
proof
  assume ls: "ls \<in> set (lossSales (step tz T st t))"
  show "(ls_ticker ls, saleDate ls, t_date b) \<in> violationKey ` set (violations (step tz T st t))"
  proof (cases "ls \<in> set (lossSales st)")
    case True
    with assms(6) step_violations_mono [of st tz T t] show ?thesis by blast
  next
    case False
    from step_new_lossSale [OF ls False]
    have s: "transType t = Sell" "saleDate ls = t_date t" "ls_ticker ls = t_ticker t" by simp_all
    show ?thesis
    proof (rule processSell_cases [of tz T st t])
      assume "lossSales (processSell tz T st t) = lossSales st"
      with ls False s show ?thesis by (simp add: step_Sell)
    next
      fix ls'
      assume l: "lossSales (processSell tz T st t) = lossSales st @ [ls']"
        and v: "violations (processSell tz T st t) =
                 backwardPass tz T t ls' (ls_quantity ls') (- lossAmount ls') (violations st)"
        and sd: "saleDate ls' = t_date t"
      have cand: "backwardCandidate tz t b" using assms(2-5) s by (simp add: backwardCandidate_def)
      from backwardPass_records [OF sd assms(1) cand]
      show ?thesis by (simp add: step_Sell [OF s(1)] v s)
    qed
  qed
qed

lemma run_backward_records:
  assumes "b \<in> set T" and "transType b = Buy" and "t_ticker b = ls_ticker ls"
    and "t_date b < saleDate ls" and "isInWashWindow tz (saleDate ls) (t_date b)"
    and "ls \<in> set (lossSales st) \<longrightarrow>
           (ls_ticker ls, saleDate ls, t_date b) \<in> violationKey ` set (violations st)"
  shows "ls \<in> set (lossSales (run tz T st ts)) \<longrightarrow>
           (ls_ticker ls, saleDate ls, t_date b) \<in> violationKey ` set (violations (run tz T st ts))"
  using assms(6)
proof (induction ts arbitrary: st)
  case Nil
  then show ?case by (simp add: run_Nil)
next
  case (Cons t ts)
  show ?case unfolding run_Cons
    by (rule Cons.IH) (rule step_backward_records [OF assms(1-5) Cons.prems])
qed

subsection \<open>The forward pass over a run\<close>

text \<open>The forward pass records every later buy inside the window of a recorded loss sale.\<close>

lemma step_forward_records:
  assumes "transType b = Buy" and "t_ticker b = ls_ticker ls"
    and "saleDate ls < t_date b" and "isInWashWindow tz (saleDate ls) (t_date b)"
    and "sorted_wrt txnLe (t # rest)"
    and "forwardViolation b ls \<in> set (violations st) \<or> b \<in> set (t # rest) \<or>
         (ls \<notin> set (lossSales st) \<and> (\<forall>x \<in> set (t # rest). t_date b \<le> t_date x))"
  shows "forwardViolation b ls \<in> set (violations (step tz T st t)) \<or> b \<in> set rest \<or>
         (ls \<notin> set (lossSales (step tz T st t)) \<and> (\<forall>x \<in> set rest. t_date b \<le> t_date x))"
proof -
  consider (recorded) "forwardViolation b ls \<in> set (violations st)"
    | (later) "b \<in> set rest"
    | (now) "b = t" "b \<notin> set rest"
    | (never) "ls \<notin> set (lossSales st)" "\<forall>x \<in> set (t # rest). t_date b \<le> t_date x"
    using assms(6) by auto
  then show ?thesis
  proof cases
    case recorded
    then show ?thesis using step_violations_mono [of st tz T t] by blast
  next
    case later
    then show ?thesis by simp
  next
    case now
    have st': "step tz T st t = processBuy tz st b" using assms(1) now(1) by (simp add: step_Buy)
    show ?thesis
    proof (cases "ls \<in> set (lossSales st)")
      case True
      then have "forwardViolation b ls \<in> set (violations (processBuy tz st b))"
        using assms(2,4) by (simp add: processBuy_simps forwardPass_eq)
      then show ?thesis by (simp add: st')
    next
      case False
      have "\<forall>x \<in> set rest. t_date b \<le> t_date x"
        using assms(5) now(1) by (auto simp: txnLe_iff)
      with False show ?thesis by (simp add: st' processBuy_simps)
    qed
  next
    case never
    have "ls \<notin> set (lossSales (step tz T st t))"
    proof
      assume "ls \<in> set (lossSales (step tz T st t))"
      from step_new_lossSale [OF this never(1)] have "saleDate ls = t_date t" by simp
      with never(2) assms(3) show False by simp
    qed
    with never(2) show ?thesis by simp
  qed
qed

lemma run_forward_records:
  assumes "transType b = Buy" and "t_ticker b = ls_ticker ls"
    and "saleDate ls < t_date b" and "isInWashWindow tz (saleDate ls) (t_date b)"
    and "sorted_wrt txnLe ts" and "b \<in> set ts"
    and "ls \<in> set (lossSales (run tz T st ts))"
  shows "forwardViolation b ls \<in> set (violations (run tz T st ts))"
proof -
  define I where "I = (\<lambda>(st::state) ts. forwardViolation b ls \<in> set (violations st) \<or>
           b \<in> set ts \<or> (ls \<notin> set (lossSales st) \<and> (\<forall>x \<in> set ts. t_date b \<le> t_date x)))"
  have start: "I st ts" using assms(6) by (simp add: I_def)
  have keep: "I (step tz T st t) rest" if "sorted_wrt txnLe (t # rest)" "I st (t # rest)"
    for st t rest
    using step_forward_records [OF assms(1-4) that(1)] that(2) unfolding I_def by blast
  have "I (run tz T st ts) []"
    by (rule run_invariant [of ts I, OF assms(5) start keep])
  with assms(7) show ?thesis by (simp add: I_def)
qed

lemma violationWf_mono:
  "violationWf tz B st v \<Longrightarrow> set (lossSales st) \<subseteq> set (lossSales st') \<Longrightarrow> violationWf tz B st' v"
  by (auto simp: violationWf_def)

lemma step_violationWf:
  assumes "t \<in> B" and "set T \<subseteq> B" and "\<forall>v \<in> set (violations st). violationWf tz B st v"
  shows "\<forall>v \<in> set (violations (step tz T st t)). violationWf tz B (step tz T st t) v"
proof
  fix v assume v: "v \<in> set (violations (step tz T st t))"
  show "violationWf tz B (step tz T st t) v"
  proof (cases "v \<in> set (violations st)")
    case True
    with assms(3) show ?thesis using violationWf_mono step_lossSales_mono by blast
  next
    case False
    show ?thesis
    proof (cases "transType t")
      case Buy
      from v False obtain ls where ls: "ls \<in> set (lossSales st)" "ls_ticker ls = t_ticker t"
        "isInWashWindow tz (saleDate ls) (t_date t)" "v = forwardViolation t ls"
        by (auto simp: step_Buy [OF Buy] processBuy_simps forwardPass_eq)
      then show ?thesis using Buy assms(1)
        by (auto simp: violationWf_def forwardViolation_def step_Buy processBuy_simps)
    next
      case Sell
      show ?thesis
      proof (rule processSell_cases [of tz T st t])
        assume "violations (processSell tz T st t) = violations st"
        with v False Sell show ?thesis by (simp add: step_Sell)
      next
        fix ls
        assume l: "lossSales (processSell tz T st t) = lossSales st @ [ls]"
          and vs: "violations (processSell tz T st t) =
                 backwardPass tz T t ls (ls_quantity ls) (- lossAmount ls) (violations st)"
          and tk: "ls_ticker ls = t_ticker t" and sd: "saleDate ls = t_date t"
          and pos: "0 < lossAmount ls"
        obtain new where n: "backwardPass tz T t ls (ls_quantity ls) (- lossAmount ls) (violations st)
                          = violations st @ new"
          "set new \<subseteq> backwardViolation t ls (ls_quantity ls) (- lossAmount ls) `
                    {p \<in> set T. backwardCandidate tz t p}"
          using backwardPass_shape by blast
        from v False vs n Sell obtain p where p: "p \<in> set T" "backwardCandidate tz t p"
          "v = backwardViolation t ls (ls_quantity ls) (- lossAmount ls) p"
          by (auto simp: step_Sell)
        have "p \<in> B" using p(1) assms(2) by blast
        then show ?thesis using p(2,3) l tk sd pos Sell
          by (auto simp: violationWf_def backwardViolation_def backwardCandidate_def step_Sell)
      qed
    qed
  qed
qed

lemma run_violationWf:
  assumes "set ts \<subseteq> B" and "set T \<subseteq> B" and "\<forall>v \<in> set (violations st). violationWf tz B st v"
  shows "\<forall>v \<in> set (violations (run tz T st ts)). violationWf tz B (run tz T st ts) v"
  using assms(1,3)
proof (induction ts arbitrary: st)
  case Nil
  then show ?case by (simp add: run_Nil)
next
  case (Cons t ts)
  have "\<forall>v \<in> set (violations (step tz T st t)). violationWf tz B (step tz T st t) v"
    by (rule step_violationWf [OF _ assms(2) Cons.prems(2)]) (use Cons.prems(1) in simp)
  then show ?case unfolding run_Cons using Cons.IH Cons.prems(1) by simp
qed

subsection \<open>The report\<close>

lemma processTransactions_simps:
  "r_transactions (processTransactions tz txns a) = sortTxns txns"
  "r_lossSales (processTransactions tz txns a) =
     lossSales (run tz (sortTxns txns) initialState (sortTxns txns))"
  "r_violations (processTransactions tz txns a) =
     violations (run tz (sortTxns txns) initialState (sortTxns txns))"
  "r_warnings (processTransactions tz txns a) =
     warnings (run tz (sortTxns txns) initialState (sortTxns txns))"
  "r_activeWindows (processTransactions tz txns a) =
     activeWindows tz (lossSales (run tz (sortTxns txns) initialState (sortTxns txns))) a"
  by (simp_all add: processTransactions_def Let_def)

lemma report_violationWf:
  "v \<in> set (r_violations (processTransactions tz txns a)) \<Longrightarrow>
   violationWf tz (set txns) (run tz (sortTxns txns) initialState (sortTxns txns)) v"
  using run_violationWf [of "sortTxns txns" "set txns" "sortTxns txns" initialState]
  by (simp add: processTransactions_simps set_sortTxns initialState_def)

text \<open>
  C10. A buy dated on the sale date of a same-ticker loss sale never produces a violation,
  although that date lies inside the inclusive wash window: no violation of a report has
  a buy date equal to the sale date of its loss sale. (Buys sort before the sells of their
  day, so the forward pass only meets loss sales of earlier days, and the backward pass
  only takes buys dated strictly before the sale.)
\<close>

theorem same_day_buy_no_violation:
  assumes "v \<in> set (r_violations (processTransactions tz txns asOfDate))"
  shows "buyDate v \<noteq> saleDate (lossSale v) \<and>
         isInWashWindow tz (saleDate (lossSale v)) (saleDate (lossSale v))"
proof
  have "\<forall>v \<in> set (r_violations (processTransactions tz txns asOfDate)).
      buyDate v \<noteq> saleDate (lossSale v)"
    unfolding processTransactions_simps
    by (rule run_no_same_day [OF sorted_sortTxns salesBefore_initial])
       (simp add: initialState_def)
  with assms show "buyDate v \<noteq> saleDate (lossSale v)" by blast
  show "isInWashWindow tz (saleDate (lossSale v)) (saleDate (lossSale v))"
    by (rule isInWashWindow_refl)
qed

text \<open>
  A buy and a loss sale on day 59, and a buy on day 40: the only violation is the one of
  the buy of day 40.
\<close>

theorem same_day_buy_no_violation_witness:
  "map (\<lambda>v. (saleDate (lossSale v), buyDate v))
     (r_violations (processTransactions utcZone
        [example_txn 40 Buy 100 10 (- 1000), example_txn 59 Sell 100 6 600,
         example_txn 59 Buy 50 5 (- 250)] 0))
   = [(dayMs 59, dayMs 40)] \<and>
   buyDate (hd (r_violations (processTransactions utcZone
        [example_txn 40 Buy 100 10 (- 1000), example_txn 59 Sell 100 6 600,
         example_txn 59 Buy 50 5 (- 250)] 0)))
   \<noteq> saleDate (lossSale (hd (r_violations (processTransactions utcZone
        [example_txn 40 Buy 100 10 (- 1000), example_txn 59 Sell 100 6 600,
         example_txn 59 Buy 50 5 (- 250)] 0))))"
proof
  let ?X = "[example_txn 40 Buy 100 10 (- 1000), example_txn 59 Sell 100 6 600,
         example_txn 59 Buy 50 5 (- 250)]"
  show "map (\<lambda>v. (saleDate (lossSale v), buyDate v)) (r_violations (processTransactions utcZone ?X 0))
   = [(dayMs 59, dayMs 40)]"
    by code_simp
  then have "r_violations (processTransactions utcZone ?X 0) \<noteq> []" by auto
  then have h: "hd (r_violations (processTransactions utcZone ?X 0))
                  \<in> set (r_violations (processTransactions utcZone ?X 0))"
    by simp
  show "buyDate (hd (r_violations (processTransactions utcZone ?X 0)))
   \<noteq> saleDate (lossSale (hd (r_violations (processTransactions utcZone ?X 0))))"
    using same_day_buy_no_violation [OF h] by blast
qed


text \<open>
  C7. Every violation of a report, from either pass, carries
  \<open>disallowedLoss = min(buy.quantity, lossSale.quantity) / lossSale.quantity * lossSale.lossAmount\<close>
  for its own loss sale and its own buy: the amount depends on no other violation and is
  not capped by the total loss of the loss sale.
\<close>

theorem disallowed_loss_formula:
  assumes "v \<in> set (r_violations (processTransactions tz txns asOfDate))"
  shows "disallowedLoss v =
           min (buyQuantity v) (ls_quantity (lossSale v)) / ls_quantity (lossSale v)
             * lossAmount (lossSale v) \<and>
         lossSale v \<in> set (r_lossSales (processTransactions tz txns asOfDate)) \<and>
         (\<exists>b \<in> set txns. transType b = Buy \<and> t_ticker b = ls_ticker (lossSale v) \<and>
            t_date b = buyDate v \<and> t_quantity b = buyQuantity v)"
  using report_violationWf [OF assms]
  by (auto simp: violationWf_def processTransactions_simps)

text \<open>
  The wash window in every time zone. For a loss sale of the report dated \<open>D\<close> and a
  same-ticker buy of the input, the report holds a violation for (ticker, sale date, buy
  date) exactly when the buy date lies between \<open>D\<close> moved by - 30 and by + 30 calendar
  days of local time, both included, and is not \<open>D\<close> itself. So a buy dated \<open>D\<close> moved by
  - 30 or + 30 calendar days is flagged and one dated \<open>D\<close> moved by - 31 or + 31 is not,
  and the window holds the 61 dates \<open>D\<close> - 30, ..., \<open>D\<close> + 30. By \<open>addDays_dateOfDay\<close>
  these are the dates that \<open>parseDate\<close> builds for the calendar days around the sale
  when the sale is dated at a local midnight that exists.
\<close>

theorem wash_window_inclusive:
  assumes "ls \<in> set (r_lossSales (processTransactions tz txns asOfDate))"
    and "b \<in> set txns" and "transType b = Buy" and "t_ticker b = ls_ticker ls"
  shows "((ls_ticker ls, saleDate ls, t_date b)
            \<in> violationKey ` set (r_violations (processTransactions tz txns asOfDate))
          \<longleftrightarrow> isInWashWindow tz (saleDate ls) (t_date b) \<and> t_date b \<noteq> saleDate ls) \<and>
         (t_date b = addDays tz (saleDate ls) (- 30) \<or> t_date b = addDays tz (saleDate ls) 30 \<longrightarrow>
            (ls_ticker ls, saleDate ls, t_date b)
              \<in> violationKey ` set (r_violations (processTransactions tz txns asOfDate))) \<and>
         (t_date b = addDays tz (saleDate ls) (- 31) \<or> t_date b = addDays tz (saleDate ls) 31 \<longrightarrow>
            (ls_ticker ls, saleDate ls, t_date b)
              \<notin> violationKey ` set (r_violations (processTransactions tz txns asOfDate))) \<and>
         {k. isInWashWindow tz (saleDate ls) (addDays tz (saleDate ls) k)} = {- 30 .. 30} \<and>
         card {k. isInWashWindow tz (saleDate ls) (addDays tz (saleDate ls) k)} = 61"
proof -
  let ?S = "sortTxns txns"
  let ?st = "run tz ?S initialState ?S"
  let ?k = "(ls_ticker ls, saleDate ls, t_date b)"
  have ls: "ls \<in> set (lossSales ?st)" using assms(1) by (simp add: processTransactions_simps)
  have bS: "b \<in> set ?S" using assms(2) by (simp add: set_sortTxns)
  have iff: "?k \<in> violationKey ` set (violations ?st)
          \<longleftrightarrow> isInWashWindow tz (saleDate ls) (t_date b) \<and> t_date b \<noteq> saleDate ls"
  proof
    assume "?k \<in> violationKey ` set (violations ?st)"
    then obtain v where v: "v \<in> set (violations ?st)" "saleDate (lossSale v) = saleDate ls"
      "buyDate v = t_date b"
      by (auto simp: violationKey_def)
    have "violationWf tz (set txns) ?st v"
      using v(1) report_violationWf [of v tz txns asOfDate] by (simp add: processTransactions_simps)
    moreover have "\<forall>v \<in> set (violations ?st). buyDate v \<noteq> saleDate (lossSale v)"
      by (rule run_no_same_day [OF sorted_sortTxns salesBefore_initial])
         (simp add: initialState_def)
    then have "buyDate v \<noteq> saleDate (lossSale v)" using v(1) by blast
    ultimately show "isInWashWindow tz (saleDate ls) (t_date b) \<and> t_date b \<noteq> saleDate ls"
      using v(2,3) by (simp add: violationWf_def)
  next
    assume w: "isInWashWindow tz (saleDate ls) (t_date b) \<and> t_date b \<noteq> saleDate ls"
    show "?k \<in> violationKey ` set (violations ?st)"
    proof (cases "t_date b < saleDate ls")
      case True
      with w show ?thesis
        using run_backward_records [OF bS assms(3,4), of tz initialState ?S] ls
        by (simp add: initialState_def)
    next
      case False
      with w have after: "saleDate ls < t_date b" by simp
      have "forwardViolation b ls \<in> set (violations ?st)"
        using run_forward_records [OF assms(3,4) after _ sorted_sortTxns bS ls] w by simp
      moreover have "violationKey (forwardViolation b ls) = ?k"
        using assms(4) by (simp add: violationKey_def forwardViolation_def)
      ultimately show ?thesis by force
    qed
  qed
  have set_eq: "{k. isInWashWindow tz (saleDate ls) (addDays tz (saleDate ls) k)} = {- 30 .. 30}"
    by (auto simp: isInWashWindow_addDays)
  have b30: "isInWashWindow tz d (addDays tz d (- 30))" "isInWashWindow tz d (addDays tz d 30)"
    "\<not> isInWashWindow tz d (addDays tz d (- 31))" "\<not> isInWashWindow tz d (addDays tz d 31)"
    "addDays tz d (- 30) \<noteq> d" "addDays tz d 30 \<noteq> d" for d
    by (simp_all add: isInWashWindow_addDays addDays_not_same)
  show ?thesis
    unfolding processTransactions_simps set_eq
    using iff b30 by auto
qed

text \<open>
  New York: a loss sale on 2024-10-15 and a buy on 2024-11-14, the calendar day \<open>D\<close> + 30,
  which is 30 days of 24 hours and one hour after the sale. The buy is flagged.
\<close>

theorem wash_window_inclusive_witness:
  "newYorkLossSale \<in> set (r_lossSales (processTransactions newYork2024
       [example_txn_at 1704171600000 Buy 100 10 (- 1000),
        example_txn_at 1728964800000 Sell 100 6 600,
        example_txn_at 1731560400000 Buy 50 5 (- 250)] 0)) \<and>
   addDays newYork2024 (saleDate newYorkLossSale) 30 = 1731560400000 \<and>
   saleDate newYorkLossSale + 30 * msPerDay + msPerHour = 1731560400000 \<and>
   (''XYZ'', 1728964800000, 1731560400000)
     \<in> violationKey ` set (r_violations (processTransactions newYork2024
       [example_txn_at 1704171600000 Buy 100 10 (- 1000),
        example_txn_at 1728964800000 Sell 100 6 600,
        example_txn_at 1731560400000 Buy 50 5 (- 250)] 0))"
proof -
  let ?X = "[example_txn_at 1704171600000 Buy 100 10 (- 1000),
        example_txn_at 1728964800000 Sell 100 6 600,
        example_txn_at 1731560400000 Buy 50 5 (- 250)]"
  let ?b = "example_txn_at 1731560400000 Buy 50 5 (- 250)"
  have h1: "newYorkLossSale \<in> set (r_lossSales (processTransactions newYork2024 ?X 0))"
    by code_simp
  have h2: "?b \<in> set ?X" by simp
  have h3: "transType ?b = Buy" by (simp add: example_txn_at_def)
  have h4: "t_ticker ?b = ls_ticker newYorkLossSale"
    by (simp add: example_txn_at_def newYorkLossSale_def example_lossSale_def)
  have a: "addDays newYork2024 (saleDate newYorkLossSale) 30 = 1731560400000" by code_simp
  have m: "saleDate newYorkLossSale + 30 * msPerDay + msPerHour = 1731560400000" by code_simp
  have e: "ls_ticker newYorkLossSale = ''XYZ''" "saleDate newYorkLossSale = 1728964800000"
    "t_date ?b = 1731560400000"
    by (simp_all add: example_txn_at_def newYorkLossSale_def example_lossSale_def)
  have "t_date ?b = addDays newYork2024 (saleDate newYorkLossSale) 30"
    using a e(3) by simp
  then have k: "(ls_ticker newYorkLossSale, saleDate newYorkLossSale, t_date ?b)
             \<in> violationKey ` set (r_violations (processTransactions newYork2024 ?X 0))"
    using wash_window_inclusive [OF h1 h2 h3 h4] by blast
  show ?thesis using h1 a m k unfolding e by blast
qed

text \<open>
  C2. A same-ticker buy dated exactly 30 days before a loss sale must be flagged. It is not
  when a clock change skips the local midnight of the sale day. Santiago de Chile, a buy
  on 2024-08-09 and a loss sale on 2024-09-08: \<open>parseDate\<close> dates the sale at 1:00 local
  time, the first time of that day, the window starts 30 calendar days earlier at 1:00
  local time, and the buy, dated at local midnight of 2024-08-09, lies one hour before it.
  The report has the loss sale and no violation.
\<close>

theorem wash_window_skipped_midnight:
  "dateOfDay santiago2024 19974 = 1725768000000 \<and>
   LocalTime santiago2024 (dateOfDay santiago2024 19974) = 19974 * msPerDay + msPerHour \<and>
   dateOfDay santiago2024 (19974 - 30) = 1723176000000 \<and>
   addDays santiago2024 (dateOfDay santiago2024 19974) (- 30) = 1723176000000 + msPerHour \<and>
   \<not> isInWashWindow santiago2024 (dateOfDay santiago2024 19974)
        (dateOfDay santiago2024 (19974 - 30)) \<and>
   r_lossSales (processTransactions santiago2024
     [example_txn_at (dateOfDay santiago2024 (19974 - 30)) Buy 100 10 (- 1000),
      example_txn_at (dateOfDay santiago2024 19974) Sell 100 6 600] 0) = [santiagoLossSale] \<and>
   r_violations (processTransactions santiago2024
     [example_txn_at (dateOfDay santiago2024 (19974 - 30)) Buy 100 10 (- 1000),
      example_txn_at (dateOfDay santiago2024 19974) Sell 100 6 600] 0) = []"
  by code_simp


text \<open>
  Two buys after one loss sale of 400: 400 and 200 are disallowed, 600 against a loss of 400.
\<close>

theorem disallowed_loss_formula_witness:
  "map disallowedLoss (r_violations (processTransactions utcZone
       [example_txn 0 Buy 100 10 (- 1000), example_txn 59 Sell 100 6 600,
        example_txn 60 Buy 100 5 (- 500), example_txn 61 Buy 50 5 (- 250)] 0)) = [400, 200] \<and>
   map lossAmount (r_lossSales (processTransactions utcZone
       [example_txn 0 Buy 100 10 (- 1000), example_txn 59 Sell 100 6 600,
        example_txn 60 Buy 100 5 (- 500), example_txn 61 Buy 50 5 (- 250)] 0)) = [400] \<and>
   disallowedLoss (last (r_violations (processTransactions utcZone
       [example_txn 0 Buy 100 10 (- 1000), example_txn 59 Sell 100 6 600,
        example_txn 60 Buy 100 5 (- 500), example_txn 61 Buy 50 5 (- 250)] 0)))
     = min 50 100 / 100 * 400"
proof (intro conjI)
  let ?X = "[example_txn 0 Buy 100 10 (- 1000), example_txn 59 Sell 100 6 600,
        example_txn 60 Buy 100 5 (- 500), example_txn 61 Buy 50 5 (- 250)]"
  let ?v = "last (r_violations (processTransactions utcZone ?X 0))"
  show d: "map disallowedLoss (r_violations (processTransactions utcZone ?X 0)) = [400, 200]"
    by code_simp
  show "map lossAmount (r_lossSales (processTransactions utcZone ?X 0)) = [400]"
    by code_simp
  from d have "r_violations (processTransactions utcZone ?X 0) \<noteq> []" by auto
  then have h: "?v \<in> set (r_violations (processTransactions utcZone ?X 0))" by simp
  have e: "buyQuantity ?v = 50" "ls_quantity (lossSale ?v) = 100" "lossAmount (lossSale ?v) = 400"
    by code_simp+
  show "disallowedLoss ?v = min 50 100 / 100 * 400"
    using disallowed_loss_formula [OF h] unfolding e by blast
qed

subsection \<open>Active windows and the ticker check\<close>

lemma daysUntil_one:
  assumes "fromDate < targetDate" and "targetDate \<le> fromDate + msPerDay"
  shows "daysUntil targetDate fromDate = 1"
proof -
  have pos: "0 < real_of_int msPerDay" by (simp add: msPerDay_def)
  have a: "0 < real_of_int (targetDate - fromDate) / real_of_int msPerDay"
    using assms(1) pos by simp
  have "real_of_int (targetDate - fromDate) \<le> real_of_int msPerDay"
    using assms(2) by linarith
  then have b: "real_of_int (targetDate - fromDate) / real_of_int msPerDay \<le> 1"
    using pos by (simp add: divide_le_eq)
  show ?thesis unfolding daysUntil_def Let_def
    by (rule ceiling_unique) (use a b in simp_all)
qed

lemma daysUntil_two:
  assumes "fromDate + msPerDay < targetDate" and "targetDate \<le> fromDate + 2 * msPerDay"
  shows "daysUntil targetDate fromDate = 2"
proof -
  have pos: "0 < real_of_int msPerDay" by (simp add: msPerDay_def)
  have "real_of_int msPerDay < real_of_int (targetDate - fromDate)"
    using assms(1) by linarith
  then have a: "1 < real_of_int (targetDate - fromDate) / real_of_int msPerDay"
    using pos by (simp add: less_divide_eq)
  have "real_of_int (targetDate - fromDate) \<le> 2 * real_of_int msPerDay"
    using assms(2) by linarith
  then have b: "real_of_int (targetDate - fromDate) / real_of_int msPerDay \<le> 2"
    using pos by (simp add: divide_le_eq)
  show ?thesis unfolding daysUntil_def Let_def
    by (rule ceiling_unique) (use a b in simp_all)
qed

lemma addDays_next_day: "addDays tz d (k + 1) - addDays tz d k \<le> msPerDay + msPerHour"
proof -
  have "- (LocalTZA tz (LocalTime tz d + (k + 1) * msPerDay) False
            - LocalTZA tz (LocalTime tz d + k * msPerDay) False) \<le> msPerHour"
    using LocalTZA_band [of tz "LocalTime tz d + (k + 1) * msPerDay" False
        "LocalTime tz d + k * msPerDay" False] by simp
  then show ?thesis unfolding addDays_diff by simp
qed

text \<open>
  C4. At \<open>asOf = D + 30\<close> one day must remain. New York, a loss sale on 2024-10-04, the
  day 20000 after the epoch: at local midnight of 2024-11-03, the day \<open>D\<close> + 30, the window
  is active and the safe date is local midnight of 2024-11-04, the next day; but the
  clocks go back in between, 25 hours are left, and \<open>daysUntil\<close>, which counts days of 24
  hours where \<open>getSafeDate\<close> counts calendar days, returns 2.
\<close>

theorem daysUntil_fall_back_day:
  "saleDate fallBackLossSale = dateOfDay newYork2024 20000 \<and>
   addDays newYork2024 (saleDate fallBackLossSale) 30 = dateOfDay newYork2024 20030 \<and>
   getSafeDate newYork2024 (saleDate fallBackLossSale) = dateOfDay newYork2024 20031 \<and>
   activeWindows newYork2024 [fallBackLossSale] (addDays newYork2024 (saleDate fallBackLossSale) 30)
     = [fallBackLossSale] \<and>
   daysUntil (getSafeDate newYork2024 (saleDate fallBackLossSale))
     (addDays newYork2024 (saleDate fallBackLossSale) 30) = 2"
  by code_simp

text \<open>
  Active windows in every time zone. A loss sale is an active window for the reference
  date \<open>asOf\<close> iff \<open>saleDate + 31 calendar days > asOf\<close>: it is active for every \<open>asOf\<close>
  up to the day \<open>D\<close> + 30, and until the end of that day, and inactive from \<open>D\<close> + 31 on.
  The days remaining at \<open>asOf = D + 30\<close>, and at any later time of that day, are 1 when no
  more than 24 hours are left until the safe date, and 2 otherwise.
\<close>

theorem active_window_expiry:
  "(ls \<in> set (activeWindows tz lss asOfDate) \<longleftrightarrow>
      ls \<in> set lss \<and> asOfDate < addDays tz (saleDate ls) 31) \<and>
   (ls \<in> set lss \<and> asOfDate \<le> addDays tz (saleDate ls) 30 \<longrightarrow>
      ls \<in> set (activeWindows tz lss asOfDate)) \<and>
   (addDays tz (saleDate ls) 31 \<le> asOfDate \<longrightarrow> ls \<notin> set (activeWindows tz lss asOfDate)) \<and>
   daysUntil (getSafeDate tz (saleDate ls)) (addDays tz (saleDate ls) 30) =
     (if addDays tz (saleDate ls) 31 - addDays tz (saleDate ls) 30 \<le> msPerDay then 1 else 2) \<and>
   (addDays tz (saleDate ls) 30 \<le> asOfDate \<and> asOfDate < addDays tz (saleDate ls) 31 \<longrightarrow>
      daysUntil (getSafeDate tz (saleDate ls)) asOfDate =
        (if addDays tz (saleDate ls) 31 - asOfDate \<le> msPerDay then 1 else 2))"
proof -
  let ?d30 = "addDays tz (saleDate ls) 30" and ?d31 = "addDays tz (saleDate ls) 31"
  have iff: "ls \<in> set (activeWindows tz lss asOfDate) \<longleftrightarrow> ls \<in> set lss \<and> asOfDate < ?d31"
    by (auto simp: activeWindows_def getSafeDate_def Let_def)
  have lt: "?d30 < ?d31" by (rule addDays_strict_mono) simp
  have nx: "?d31 - ?d30 \<le> msPerDay + msPerHour"
    using addDays_next_day [of tz "saleDate ls" 30] by simp
  have d: "daysUntil (getSafeDate tz (saleDate ls)) a = (if ?d31 - a \<le> msPerDay then 1 else 2)"
    if "?d30 \<le> a" "a < ?d31" for a
  proof (cases "?d31 - a \<le> msPerDay")
    case True
    have "daysUntil ?d31 a = 1" by (rule daysUntil_one) (use that True in simp_all)
    with True show ?thesis by (simp add: getSafeDate_def)
  next
    case False
    have "daysUntil ?d31 a = 2"
      by (rule daysUntil_two) (use that False nx hour_less_day in simp_all)
    with False show ?thesis by (simp add: getSafeDate_def)
  qed
  show ?thesis using iff lt d [of ?d30] d [of asOfDate] by auto
qed

text \<open>
  In UTC the example loss sale of day 59 is active on day 89 and not on day 90, and on
  day 89 one day remains.
\<close>

theorem active_window_expiry_witness:
  "example_lossSale \<in> set (activeWindows utcZone [example_lossSale] (dayMs 89)) \<and>
   example_lossSale \<notin> set (activeWindows utcZone [example_lossSale] (dayMs 90)) \<and>
   daysUntil (getSafeDate utcZone (dayMs 59)) (dayMs 89) = 1"
proof -
  have s: "saleDate example_lossSale = dayMs 59" by (simp add: example_lossSale_def)
  have m: "example_lossSale \<in> set [example_lossSale]" by simp
  show ?thesis
    using active_window_expiry [of example_lossSale utcZone "[example_lossSale]" "dayMs 89"]
      active_window_expiry [of example_lossSale utcZone "[example_lossSale]" "dayMs 90"] m
    unfolding s dayMs_utcZone by (simp add: dayMs_def msPerDay_def)
qed

lemma foldl_latest:
  "foldl (\<lambda>latest w. let safe = f w in if safe > latest then safe else latest) a ws
     = Max (insert (a::int) (f ` set ws))"
proof (induction ws arbitrary: a)
  case Nil
  show ?case by simp
next
  case (Cons w ws)
  have "Max (insert (max a (f w)) (f ` set ws)) = Max (insert a (insert (f w) (f ` set ws)))"
    by (cases "f ` set ws = {}") (simp_all add: max.assoc)
  moreover have "(if f w > a then f w else a) = max a (f w)" by (simp add: max_def)
  ultimately show ?case using Cons.IH [of "max a (f w)"] by (simp add: Let_def)
qed

lemma toUpperChar_idem: "toUpperChar (toUpperChar c) = toUpperChar c"
proof (cases "97 \<le> (of_char c :: nat) \<and> (of_char c :: nat) \<le> 122")
  case True
  then have lt: "(of_char c :: nat) - 32 < 256" and no: "\<not> 97 \<le> (of_char c :: nat) - 32"
    by linarith+
  from lt have o: "(of_char (char_of (of_char c - 32 :: nat)) :: nat) = of_char c - 32"
    by simp
  have e: "toUpperChar c = char_of (of_char c - 32 :: nat)"
    using True by (simp add: toUpperChar_def Let_def)
  have "toUpperChar (char_of (of_char c - 32 :: nat)) = char_of (of_char c - 32 :: nat)"
    unfolding toUpperChar_def Let_def o using no by simp
  then show ?thesis by (simp add: e)
next
  case False
  then have "toUpperChar c = c" by (auto simp: toUpperChar_def Let_def)
  then show ?thesis by simp
qed

lemma toUpperCase_idem: "toUpperCase (toUpperCase s) = toUpperCase s"
  by (simp add: toUpperCase_def toUpperChar_idem)

text \<open>
  C3 as stated fails. A window whose stored ticker is \<open>aapl\<close> is active and equals the
  query \<open>aapl\<close> up to case, yet the check reports safe, because only the query is
  upper-cased. And for a matching window whose safe date lies before the epoch the reported
  safe date is the starting value of the fold, \<open>new Date(0)\<close>, not the maximum.
\<close>

theorem checkTicker_case_counterexample:
  "activeWindows utcZone [lowerCaseLossSale] 0 = [lowerCaseLossSale] \<and>
   caseInsensitiveEq (ls_ticker lowerCaseLossSale) ''aapl'' \<and>
   checkTicker utcZone ''aapl'' (Some (activeWindows utcZone [lowerCaseLossSale] 0)) 0
     = Some (SafeResult ''AAPL'') \<and>
   activeWindows utcZone [preEpochLossSale] (dayMs (- 80)) = [preEpochLossSale] \<and>
   getSafeDate utcZone (saleDate preEpochLossSale) = dayMs (- 69) \<and>
   checkTicker utcZone ''XYZ'' (Some (activeWindows utcZone [preEpochLossSale] (dayMs (- 80))))
       (dayMs (- 80))
     = Some (WarningResult ''XYZ'' [preEpochLossSale] 0 80)"
  by code_simp

text \<open>
  C3, amended. The query is trimmed and upper-cased and compared exactly with the ticker of
  each active window as stored, which is a case-insensitive match when the stored tickers
  are upper case. The check reports safe iff no active window matches; otherwise, for a
  reference date not before the epoch, it reports unsafe with the maximum of
  \<open>saleDate + 31 days\<close> over the matching windows as safe date, the days until then, and
  all the matching windows.
\<close>

theorem checkTicker_upper_cased_query:
  assumes "trim ticker \<noteq> []"
  shows "(checkTicker tz ticker (Some (activeWindows tz lss asOfDate)) asOfDate
            = Some (SafeResult (toUpperCase (trim ticker)))
          \<longleftrightarrow> filter (\<lambda>w. ls_ticker w = toUpperCase (trim ticker))
                  (activeWindows tz lss asOfDate) = []) \<and>
         (filter (\<lambda>w. ls_ticker w = toUpperCase (trim ticker)) (activeWindows tz lss asOfDate) \<noteq> []
            \<and> 0 \<le> asOfDate \<longrightarrow>
          checkTicker tz ticker (Some (activeWindows tz lss asOfDate)) asOfDate
            = Some (WarningResult (toUpperCase (trim ticker))
                 (filter (\<lambda>w. ls_ticker w = toUpperCase (trim ticker))
                    (activeWindows tz lss asOfDate))
                 (Max ((\<lambda>w. getSafeDate tz (saleDate w)) `
                    set (filter (\<lambda>w. ls_ticker w = toUpperCase (trim ticker))
                           (activeWindows tz lss asOfDate))))
                 (daysUntil
                    (Max ((\<lambda>w. getSafeDate tz (saleDate w)) `
                       set (filter (\<lambda>w. ls_ticker w = toUpperCase (trim ticker))
                              (activeWindows tz lss asOfDate))))
                    asOfDate))) \<and>
         ((\<forall>w \<in> set lss. toUpperCase (ls_ticker w) = ls_ticker w) \<longrightarrow>
            filter (\<lambda>w. ls_ticker w = toUpperCase (trim ticker)) (activeWindows tz lss asOfDate)
              = filter (\<lambda>w. caseInsensitiveEq (ls_ticker w) (trim ticker))
                  (activeWindows tz lss asOfDate))"
proof (intro conjI impI)
  let ?U = "toUpperCase (trim ticker)"
  let ?M = "filter (\<lambda>w. ls_ticker w = ?U) (activeWindows tz lss asOfDate)"
  let ?f = "\<lambda>w. getSafeDate tz (saleDate w)"
  show "checkTicker tz ticker (Some (activeWindows tz lss asOfDate)) asOfDate = Some (SafeResult ?U)
          \<longleftrightarrow> ?M = []"
    using assms by (simp add: checkTicker_def Let_def)
  show "checkTicker tz ticker (Some (activeWindows tz lss asOfDate)) asOfDate
            = Some (WarningResult ?U ?M (Max (?f ` set ?M)) (daysUntil (Max (?f ` set ?M)) asOfDate))"
    if h: "?M \<noteq> [] \<and> 0 \<le> asOfDate"
  proof -
    from h obtain w where w: "w \<in> set ?M" by (cases ?M) auto
    then have "asOfDate < ?f w"
      by (simp add: activeWindows_def Let_def)
    with h have "0 < ?f w" by simp
    moreover have fin: "finite (?f ` set ?M)" by simp
    moreover have "?f w \<in> ?f ` set ?M" using w by (rule imageI)
    ultimately have "0 \<le> Max (?f ` set ?M)" using Max_ge [of "?f ` set ?M" "?f w"] by linarith
    moreover have "?f ` set ?M \<noteq> {}" using w by auto
    ultimately have mx: "Max (insert 0 (?f ` set ?M)) = Max (?f ` set ?M)"
      by (simp add: max_def)
    have fl: "foldl (\<lambda>latest w. let safe = getSafeDate tz (saleDate w)
                                in if safe > latest then safe else latest) 0 ?M
                = Max (insert 0 (?f ` set ?M))"
      by (rule foldl_latest)
    have ct: "checkTicker tz ticker (Some (activeWindows tz lss asOfDate)) asOfDate
            = Some (WarningResult ?U ?M
                (foldl (\<lambda>latest w. let safe = getSafeDate tz (saleDate w)
                                in if safe > latest then safe else latest) 0 ?M)
                (daysUntil
                   (foldl (\<lambda>latest w. let safe = getSafeDate tz (saleDate w)
                                in if safe > latest then safe else latest) 0 ?M)
                   asOfDate))"
      using assms h by (simp add: checkTicker_def Let_def)
    show ?thesis unfolding ct fl mx by (rule refl)
  qed
  show "?M = filter (\<lambda>w. caseInsensitiveEq (ls_ticker w) (trim ticker))
                  (activeWindows tz lss asOfDate)"
    if u: "\<forall>w \<in> set lss. toUpperCase (ls_ticker w) = ls_ticker w"
  proof (rule filter_cong [OF refl])
    fix w assume "w \<in> set (activeWindows tz lss asOfDate)"
    then have "w \<in> set lss" by (simp add: activeWindows_def)
    with u have "toUpperCase (ls_ticker w) = ls_ticker w" by blast
    then show "(ls_ticker w = ?U) = caseInsensitiveEq (ls_ticker w) (trim ticker)"
      by (simp add: caseInsensitiveEq_def)
  qed
qed

theorem checkTicker_upper_cased_query_witness:
  "trim '' xyz '' \<noteq> [] \<and>
   checkTicker utcZone '' xyz '' (Some (activeWindows utcZone [example_lossSale] (dayMs 83))) (dayMs 83)
     = Some (WarningResult ''XYZ'' [example_lossSale] (dayMs 90) 7)"
proof -
  have t: "trim '' xyz '' \<noteq> []" by code_simp
  have u: "toUpperCase (trim '' xyz '') = ''XYZ''" by code_simp
  have m: "filter (\<lambda>w. ls_ticker w = ''XYZ'') (activeWindows utcZone [example_lossSale] (dayMs 83))
             = [example_lossSale]"
    by code_simp
  have d: "daysUntil (dayMs 90) (dayMs 83) = 7" by code_simp
  have s: "getSafeDate utcZone (saleDate example_lossSale) = dayMs 90"
    by (simp add: example_lossSale_def getSafeDate_def dayMs_utcZone)
  have a: "0 \<le> dayMs 83" by (simp add: dayMs_def msPerDay_def)
  show ?thesis
    using checkTicker_upper_cased_query [OF t, of utcZone "[example_lossSale]" "dayMs 83"] t a
    unfolding u m by (simp add: s d)
qed

subsection \<open>Loss sales and warnings of one sell\<close>

lemma matchLots_sold_mono:
  "matchLots ls acc = (ls', acc') \<Longrightarrow> quantitySold acc \<le> quantitySold acc'"
proof (induction ls arbitrary: acc ls' acc')
  case Nil
  then show ?case by simp
next
  case (Cons l ls)
  show ?case
  proof (cases "remainingToSell acc \<le> 0 \<or> remaining l \<le> 0")
    case True
    with Cons.prems Cons.IH show ?thesis
      by (auto simp: Let_def split: if_splits prod.splits)
  next
    case False
    define take where "take = min (remaining l) (remainingToSell acc)"
    define acc1 where "acc1 = \<lparr>remainingToSell = remainingToSell acc - take,
                 totalCostBasis = totalCostBasis acc + take * lot_price l,
                 quantitySold = quantitySold acc + take\<rparr>"
    obtain ls1 acc2 where m: "matchLots ls acc1 = (ls1, acc2)" by (cases "matchLots ls acc1")
    from Cons.prems False m have "acc' = acc2"
      by (simp add: Let_def take_def acc1_def)
    moreover have "0 < take" using False by (simp add: take_def)
    moreover have "quantitySold acc1 \<le> quantitySold acc2" by (rule Cons.IH [OF m])
    ultimately show ?thesis by (simp add: acc1_def)
  qed
qed

lemma processSell_lossSales:
  assumes "matchLots (queue st (t_ticker t))
             \<lparr>remainingToSell = t_quantity t, totalCostBasis = 0, quantitySold = 0\<rparr>
           = (lots', acc)"
  shows "lossSales (processSell tz T st t) =
           (if 0 < quantitySold acc \<and>
               amount t * (quantitySold acc / t_quantity t) - totalCostBasis acc < 0
            then lossSales st @
                 [\<lparr>ls_ticker = t_ticker t, saleDate = t_date t,
                   ls_quantity = quantitySold acc, salePrice = t_price t,
                   proceeds = amount t * (quantitySold acc / t_quantity t),
                   costBasis = totalCostBasis acc,
                   lossAmount = - (amount t * (quantitySold acc / t_quantity t)
                                     - totalCostBasis acc)\<rparr>]
            else lossSales st)"
proof -
  have nn: "0 \<le> quantitySold acc" using matchLots_sold_mono [OF assms] by simp
  show ?thesis
  proof (cases "queue st (t_ticker t) = []")
    case True
    with assms have "quantitySold acc = 0" by auto
    with True show ?thesis by (simp add: processSell_def queue_def [symmetric] Let_def)
  next
    case False
    with assms nn show ?thesis
      by (auto simp: processSell_def queue_def [symmetric] Let_def)
  qed
qed

text \<open>Every loss sale of a report comes from a sell of the input and records a loss.\<close>

lemma run_lossSale_source:
  assumes "\<forall>ls \<in> set (lossSales st). P ls"
    and "\<And>ls t. t \<in> set ts \<Longrightarrow> transType t = Sell \<Longrightarrow> ls_ticker ls = t_ticker t \<Longrightarrow>
           saleDate ls = t_date t \<Longrightarrow> 0 < lossAmount ls \<Longrightarrow>
           lossAmount ls = costBasis ls - proceeds ls \<Longrightarrow> P ls"
  shows "\<forall>ls \<in> set (lossSales (run tz T st ts)). P ls"
  using assms
proof (induction ts arbitrary: st)
  case Nil
  then show ?case by (simp add: run_Nil)
next
  case (Cons t ts)
  have "\<forall>ls \<in> set (lossSales (step tz T st t)). P ls"
  proof (cases "transType t")
    case Buy
    with Cons.prems(1) show ?thesis by (simp add: step_Buy processBuy_simps)
  next
    case Sell
    show ?thesis unfolding step_Sell [OF Sell]
    proof (rule processSell_cases [of tz T st t])
      assume "lossSales (processSell tz T st t) = lossSales st"
      with Cons.prems(1) show "\<forall>ls \<in> set (lossSales (processSell tz T st t)). P ls" by simp
    next
      fix ls
      assume "lossSales (processSell tz T st t) = lossSales st @ [ls]"
        "ls_ticker ls = t_ticker t" "saleDate ls = t_date t" "0 < lossAmount ls"
        "lossAmount ls = costBasis ls - proceeds ls"
      then show "\<forall>ls \<in> set (lossSales (processSell tz T st t)). P ls"
        using Cons.prems(1) Cons.prems(2) [of t ls] Sell by auto
    qed
  qed
  then show ?case unfolding run_Cons
    by (rule Cons.IH) (use Cons.prems(2) in auto)
qed

text \<open>
  C6. A sell appends a loss sale iff it matched a positive quantity and
  \<open>gainLoss = proceeds - matchedCostBasis\<close> is negative; the loss sale then has
  \<open>lossAmount = - gainLoss\<close> and the matched quantity as its quantity. A sell with zero or
  positive gain or without a match appends none, so every loss sale of a report has a
  positive loss amount, equal to cost basis minus proceeds, and stems from a sell of the
  input.
\<close>

theorem loss_sale_iff_negative_gain:
  assumes "matchLots (queue st (t_ticker t))
             \<lparr>remainingToSell = t_quantity t, totalCostBasis = 0, quantitySold = 0\<rparr>
           = (lots', acc)"
  shows "0 \<le> quantitySold acc \<and>
         lossSales (processSell tz T st t) =
           (if 0 < quantitySold acc \<and>
               amount t * (quantitySold acc / t_quantity t) - totalCostBasis acc < 0
            then lossSales st @
                 [\<lparr>ls_ticker = t_ticker t, saleDate = t_date t,
                   ls_quantity = quantitySold acc, salePrice = t_price t,
                   proceeds = amount t * (quantitySold acc / t_quantity t),
                   costBasis = totalCostBasis acc,
                   lossAmount = - (amount t * (quantitySold acc / t_quantity t)
                                     - totalCostBasis acc)\<rparr>]
            else lossSales st) \<and>
         (\<forall>ls \<in> set (r_lossSales (processTransactions tz txns asOfDate)).
            0 < lossAmount ls \<and> lossAmount ls = costBasis ls - proceeds ls \<and>
            (\<exists>s \<in> set txns. transType s = Sell \<and> t_ticker s = ls_ticker ls \<and>
                             t_date s = saleDate ls))"
proof (intro conjI)
  show "0 \<le> quantitySold acc" using matchLots_sold_mono [OF assms] by simp
  show "lossSales (processSell tz T st t) =
           (if 0 < quantitySold acc \<and>
               amount t * (quantitySold acc / t_quantity t) - totalCostBasis acc < 0
            then lossSales st @
                 [\<lparr>ls_ticker = t_ticker t, saleDate = t_date t,
                   ls_quantity = quantitySold acc, salePrice = t_price t,
                   proceeds = amount t * (quantitySold acc / t_quantity t),
                   costBasis = totalCostBasis acc,
                   lossAmount = - (amount t * (quantitySold acc / t_quantity t)
                                     - totalCostBasis acc)\<rparr>]
            else lossSales st)"
    by (rule processSell_lossSales [OF assms])
  show "\<forall>ls \<in> set (r_lossSales (processTransactions tz txns asOfDate)).
            0 < lossAmount ls \<and> lossAmount ls = costBasis ls - proceeds ls \<and>
            (\<exists>s \<in> set txns. transType s = Sell \<and> t_ticker s = ls_ticker ls \<and>
                             t_date s = saleDate ls)"
    unfolding processTransactions_simps
    by (rule run_lossSale_source) (auto simp: initialState_def set_sortTxns)
qed

theorem loss_sale_iff_negative_gain_witness:
  "matchLots (queue afterFirstBuy (t_ticker (example_txn 59 Sell 100 6 600)))
     \<lparr>remainingToSell = t_quantity (example_txn 59 Sell 100 6 600),
      totalCostBasis = 0, quantitySold = 0\<rparr>
   = ([\<lparr>lot_date = dayMs 0, lot_quantity = 100, lot_price = 10, remaining = 0\<rparr>],
      \<lparr>remainingToSell = 0, totalCostBasis = 1000, quantitySold = 100\<rparr>) \<and>
   lossSales (processSell utcZone [] afterFirstBuy (example_txn 59 Sell 100 6 600)) = [example_lossSale]"
proof -
  let ?t = "example_txn 59 Sell 100 6 600"
  have m: "matchLots (queue afterFirstBuy (t_ticker ?t))
     \<lparr>remainingToSell = t_quantity ?t, totalCostBasis = 0, quantitySold = 0\<rparr>
   = ([\<lparr>lot_date = dayMs 0, lot_quantity = 100, lot_price = 10, remaining = 0\<rparr>],
      \<lparr>remainingToSell = 0, totalCostBasis = 1000, quantitySold = 100\<rparr>)"
    by code_simp
  have l: "lossSales afterFirstBuy = []"
    by (simp add: afterFirstBuy_def processBuy_simps initialState_def)
  have "lossSales (processSell utcZone [] afterFirstBuy ?t) = [example_lossSale]"
    using loss_sale_iff_negative_gain [OF m, of utcZone "[]" "[]" 0]
    by (simp add: l example_txn_def example_lossSale_def)
  with m show ?thesis by simp
qed







subsection \<open>Open lots and the same-day rule\<close>

lemma matchLots_nothing_sold:
  "matchLots ls acc = (ls', acc') \<Longrightarrow> quantitySold acc' = quantitySold acc \<Longrightarrow> ls' = ls"
proof (induction ls arbitrary: acc ls' acc')
  case Nil
  then show ?case by simp
next
  case (Cons l ls)
  show ?case
  proof (cases "remainingToSell acc \<le> 0 \<or> remaining l \<le> 0")
    case True
    with Cons.prems Cons.IH show ?thesis
      by (auto simp: Let_def split: if_splits prod.splits)
  next
    case False
    define take where "take = min (remaining l) (remainingToSell acc)"
    define acc1 where "acc1 = \<lparr>remainingToSell = remainingToSell acc - take,
                 totalCostBasis = totalCostBasis acc + take * lot_price l,
                 quantitySold = quantitySold acc + take\<rparr>"
    obtain ls1 acc2 where m: "matchLots ls acc1 = (ls1, acc2)" by (cases "matchLots ls acc1")
    from Cons.prems(1) False m have "acc' = acc2"
      by (simp add: Let_def take_def acc1_def)
    moreover have "0 < take" using False by (simp add: take_def)
    moreover have "quantitySold acc1 \<le> quantitySold acc2" by (rule matchLots_sold_mono [OF m])
    ultimately have "quantitySold acc < quantitySold acc'" by (simp add: acc1_def)
    with Cons.prems(2) show ?thesis by simp
  qed
qed

lemma queue_processBuy:
  "queue (processBuy tz st t) ticker =
     (if ticker = t_ticker t
      then queue st ticker @ [\<lparr>lot_date = t_date t, lot_quantity = t_quantity t,
                               lot_price = t_price t, remaining = t_quantity t\<rparr>]
      else queue st ticker)"
  by (simp add: queue_def processBuy_def Let_def)

lemma queue_processSell_other:
  "ticker \<noteq> t_ticker t \<Longrightarrow> queue (processSell tz T st t) ticker = queue st ticker"
  by (auto simp: queue_def processSell_def Let_def split: prod.splits)

lemma queue_processSell_same:
  assumes "matchLots (queue st (t_ticker t))
             \<lparr>remainingToSell = t_quantity t, totalCostBasis = 0, quantitySold = 0\<rparr>
           = (lots', acc)"
  shows "queue (processSell tz T st t) (t_ticker t) =
           (if quantitySold acc = 0 then queue st (t_ticker t)
            else filter (\<lambda>l. remaining l > 0.0001) lots')"
proof (cases "queue st (t_ticker t) = []")
  case True
  with assms have "quantitySold acc = 0" by auto
  moreover have "processSell tz T st t
                   = st\<lparr>warnings := warnings st @ [NoBuyLots (t_ticker t) (t_date t)]\<rparr>"
    using True by (simp add: processSell_def queue_def [symmetric] Let_def)
  ultimately show ?thesis using True by (simp add: queue_def)
next
  case False
  show ?thesis
  proof (cases "quantitySold acc = 0")
    case True
    then have "lots' = queue st (t_ticker t)"
      using matchLots_nothing_sold [OF assms] by simp
    with False True assms show ?thesis
      by (simp add: processSell_def Let_def queue_def)
  next
    case sold: False
    with False assms show ?thesis
      by (simp add: processSell_def Let_def queue_def)
  qed
qed

lemma step_lotsOpen:
  assumes "0 < t_quantity t" and "lotsOpen st"
  shows "lotsOpen (step tz T st t)"
proof (cases "transType t")
  case Buy
  with assms show ?thesis by (auto simp: lotsOpen_def step_Buy queue_processBuy)
next
  case Sell
  obtain ls' acc where m: "matchLots (queue st (t_ticker t))
      \<lparr>remainingToSell = t_quantity t, totalCostBasis = 0, quantitySold = 0\<rparr> = (ls', acc)"
    by (cases "matchLots (queue st (t_ticker t))
      \<lparr>remainingToSell = t_quantity t, totalCostBasis = 0, quantitySold = 0\<rparr>")
  show ?thesis unfolding lotsOpen_def step_Sell [OF Sell]
  proof (intro allI ballI)
    fix ticker l assume l: "l \<in> set (queue (processSell tz T st t) ticker)"
    show "0 < remaining l"
    proof (cases "ticker = t_ticker t")
      case False
      with l assms(2) show ?thesis by (auto simp: queue_processSell_other lotsOpen_def)
    next
      case True
      with l assms(2) show ?thesis
        by (auto simp: queue_processSell_same [OF m] lotsOpen_def split: if_splits)
    qed
  qed
qed

lemma run_lots_open:
  assumes "\<forall>t \<in> set ts. 0 < t_quantity t" and "lotsOpen st"
  shows "lotsOpen (run tz T st ts)"
  using assms
proof (induction ts arbitrary: st)
  case Nil
  then show ?case by (simp add: run_Nil)
next
  case (Cons t ts)
  have "lotsOpen (step tz T st t)" by (rule step_lotsOpen) (use Cons.prems in auto)
  then show ?case unfolding run_Cons by (rule Cons.IH [rotated]) (use Cons.prems in auto)
qed

text \<open>
  Line 120 drops the rows whose quantity is not positive, so every queue of the pass holds
  open lots only.
\<close>

lemma pass_lots_open:
  assumes "\<forall>t \<in> set txns. 0 < t_quantity t"
  shows "lotsOpen (run tz T initialState (sortTxns txns))"
  by (rule run_lots_open)
     (use assms in \<open>simp_all add: set_sortTxns lotsOpen_def queue_def initialState_def\<close>)

lemma length_filter_sortTxns: "length (filter P (sortTxns xs)) = length (filter P xs)"
proof -
  have "mset (filter P (sortTxns xs)) = mset (filter P xs)"
    by (simp add: mset_sortTxns)
  then show ?thesis by (metis size_mset)
qed

lemma txnLe_date: "txnLe a b \<Longrightarrow> t_date a \<le> t_date b"
  by (auto simp: txnLe_iff)

lemma step_sameDayInv:
  assumes "sorted_wrt txnLe (t # rest)" and "sameDayInv ticker d st (t # rest)"
  shows "sameDayInv ticker d (step tz T st t) rest"
proof -
  from assms(2) have nw: "NoBuyLots ticker d \<notin> set (warnings st)"
    and cnt: "length (filter (sellOn ticker d) (t # rest)) \<le> 1"
    and dis: "filter (sellOn ticker d) (t # rest) = [] \<or>
      (\<exists>b \<in> set (t # rest). buyOn ticker d b) \<or>
      (queue st ticker \<noteq> [] \<and> (\<forall>x \<in> set (t # rest). d \<le> t_date x))"
    by (simp_all add: sameDayInv_def)
  have le: "\<forall>x \<in> set rest. txnLe t x" using assms(1) by simp
  have cnt': "length (filter (sellOn ticker d) rest) \<le> 1" using cnt by (simp split: if_splits)
  show ?thesis
  proof (cases "transType t")
    case Buy
    have w: "NoBuyLots ticker d \<notin> set (warnings (step tz T st t))"
      using nw Buy by (simp add: step_Buy processBuy_simps)
    have "filter (sellOn ticker d) rest = [] \<or> (\<exists>b \<in> set rest. buyOn ticker d b) \<or>
      (queue (step tz T st t) ticker \<noteq> [] \<and> (\<forall>x \<in> set rest. d \<le> t_date x))"
    proof -
      consider (none) "filter (sellOn ticker d) (t # rest) = []"
        | (later) "\<exists>b \<in> set rest. buyOn ticker d b"
        | (now) "buyOn ticker d t"
        | (queued) "queue st ticker \<noteq> []" "\<forall>x \<in> set (t # rest). d \<le> t_date x"
        using dis by auto
      then show ?thesis
      proof cases
        case none
        then show ?thesis by (simp split: if_splits)
      next
        case later
        then show ?thesis by simp
      next
        case now
        then have "queue (step tz T st t) ticker \<noteq> []"
          by (simp add: step_Buy [OF Buy] queue_processBuy buyOn_def)
        moreover have "\<forall>x \<in> set rest. d \<le> t_date x"
          using le now txnLe_date by (auto simp: buyOn_def)
        ultimately show ?thesis by simp
      next
        case queued
        then have "queue (step tz T st t) ticker \<noteq> []"
          by (simp add: step_Buy [OF Buy] queue_processBuy)
        with queued(2) show ?thesis by simp
      qed
    qed
    with w cnt' show ?thesis by (simp add: sameDayInv_def)
  next
    case Sell
    have st': "step tz T st t = processSell tz T st t" by (simp add: step_Sell [OF Sell])
    have later_buy: False if "sellOn ticker d t" "b \<in> set rest" "buyOn ticker d b" for b
    proof -
      from le that(2) have "txnLe t b" by blast
      with that(1,3) show False by (simp add: txnLe_iff sellOn_def buyOn_def)
    qed
    have w: "NoBuyLots ticker d \<notin> set (warnings (step tz T st t))"
    proof (cases "sellOn ticker d t")
      case False
      with nw Sell show ?thesis
        by (auto simp: st' processSell_warnings sellOn_def split: if_splits)
    next
      case True
      then have "filter (sellOn ticker d) (t # rest) \<noteq> []" by simp
      moreover have "\<not> (\<exists>b \<in> set (t # rest). buyOn ticker d b)"
        using later_buy [OF True] True by (auto simp: sellOn_def buyOn_def)
      ultimately have "queue st ticker \<noteq> []" using dis by blast
      then have "queue st (t_ticker t) \<noteq> []" using True by (simp add: sellOn_def)
      then have "warnings (processSell tz T st t) = warnings st"
        by (auto simp: processSell_warnings queue_def split: option.splits)
      with nw show ?thesis by (simp add: st')
    qed
    have "filter (sellOn ticker d) rest = [] \<or> (\<exists>b \<in> set rest. buyOn ticker d b) \<or>
      (queue (step tz T st t) ticker \<noteq> [] \<and> (\<forall>x \<in> set rest. d \<le> t_date x))"
    proof (cases "sellOn ticker d t")
      case True
      with cnt have "filter (sellOn ticker d) rest = []" by simp
      then show ?thesis by simp
    next
      case notnow: False
      consider (none) "filter (sellOn ticker d) (t # rest) = []"
        | (later) "\<exists>b \<in> set rest. buyOn ticker d b"
        | (queued) "queue st ticker \<noteq> []" "\<forall>x \<in> set (t # rest). d \<le> t_date x"
        using dis Sell by (auto simp: buyOn_def)
      then show ?thesis
      proof cases
        case none
        then show ?thesis by (simp split: if_splits)
      next
        case later
        then show ?thesis by simp
      next
        case queued
        show ?thesis
        proof (cases "t_ticker t = ticker")
          case False
          then have "queue (step tz T st t) ticker = queue st ticker"
            by (simp add: st' queue_processSell_other)
          with queued show ?thesis by simp
        next
          case True
          with notnow Sell have "t_date t \<noteq> d" by (simp add: sellOn_def)
          with queued(2) have "d < t_date t" by simp
          then have "\<forall>x \<in> set rest. d < t_date x" using le txnLe_date by fastforce
          then have "filter (sellOn ticker d) rest = []"
            by (auto simp: filter_empty_conv sellOn_def)
          then show ?thesis by simp
        qed
      qed
    qed
    with w cnt' show ?thesis by (simp add: sameDayInv_def)
  qed
qed

lemma run_same_day:
  assumes "b \<in> set txns" and "buyOn ticker d b"
    and "length (filter (sellOn ticker d) txns) \<le> 1"
  shows "NoBuyLots ticker d \<notin> set (warnings (run tz (sortTxns txns) initialState (sortTxns txns)))"
proof -
  let ?S = "sortTxns txns"
  have start: "sameDayInv ticker d initialState ?S"
    using assms by (auto simp: sameDayInv_def initialState_def length_filter_sortTxns set_sortTxns)
  have keep: "sameDayInv ticker d (step tz ?S st t) rest"
    if "sorted_wrt txnLe (t # rest)" "sameDayInv ticker d st (t # rest)" for st t rest
    using that by (rule step_sameDayInv)
  have "sameDayInv ticker d (run tz ?S initialState ?S) []"
    by (rule run_invariant [of ?S "sameDayInv ticker d", OF sorted_sortTxns start keep])
  then show ?thesis by (simp add: sameDayInv_def)
qed

text \<open>
  C5. Whatever the order of the input, the pass runs over a permutation of it that is
  sorted by non-decreasing date with no sell in front of a buy of the same date. So when
  the input holds a buy of a ticker on a day and at most one sell of that ticker on that
  day, the buy is processed first and the report has no missing-lot warning for that
  ticker and day.
\<close>

theorem buys_before_sells_same_day:
  "sorted_wrt (\<lambda>a b. t_date a < t_date b \<or>
                     (t_date a = t_date b \<and> (transType a = Buy \<or> transType b = Sell)))
     (r_transactions (processTransactions tz txns asOfDate)) \<and>
   mset (r_transactions (processTransactions tz txns asOfDate)) = mset txns \<and>
   r_warnings (processTransactions tz txns asOfDate) =
     warnings (run tz (r_transactions (processTransactions tz txns asOfDate)) initialState
                   (r_transactions (processTransactions tz txns asOfDate))) \<and>
   ((\<exists>b \<in> set txns. buyOn ticker d b) \<and> length (filter (sellOn ticker d) txns) \<le> 1 \<longrightarrow>
      NoBuyLots ticker d \<notin> set (r_warnings (processTransactions tz txns asOfDate)))"
proof (intro conjI impI)
  have rel: "txnLe = (\<lambda>a b. t_date a < t_date b \<or>
                     (t_date a = t_date b \<and> (transType a = Buy \<or> transType b = Sell)))"
    by (simp add: fun_eq_iff txnLe_iff)
  show "sorted_wrt (\<lambda>a b. t_date a < t_date b \<or>
                     (t_date a = t_date b \<and> (transType a = Buy \<or> transType b = Sell)))
     (r_transactions (processTransactions tz txns asOfDate))"
    using sorted_sortTxns [of txns] unfolding rel by (simp add: processTransactions_simps)
  show "mset (r_transactions (processTransactions tz txns asOfDate)) = mset txns"
    by (simp add: processTransactions_simps mset_sortTxns)
  show "r_warnings (processTransactions tz txns asOfDate) =
     warnings (run tz (r_transactions (processTransactions tz txns asOfDate)) initialState
                   (r_transactions (processTransactions tz txns asOfDate)))"
    by (simp add: processTransactions_simps)
  assume "(\<exists>b \<in> set txns. buyOn ticker d b) \<and> length (filter (sellOn ticker d) txns) \<le> 1"
  then show "NoBuyLots ticker d \<notin> set (r_warnings (processTransactions tz txns asOfDate))"
    unfolding processTransactions_simps using run_same_day by blast
qed

text \<open>
  The sell comes first in the input; the buy of the same day is processed first, the sell
  is matched against its lot and becomes a loss sale, and there is no warning.
\<close>

theorem buys_before_sells_same_day_witness:
  "r_transactions (processTransactions utcZone
      [example_txn 59 Sell 100 6 600, example_txn 59 Buy 100 10 (- 1000)] 0)
     = [example_txn 59 Buy 100 10 (- 1000), example_txn 59 Sell 100 6 600] \<and>
   r_lossSales (processTransactions utcZone
      [example_txn 59 Sell 100 6 600, example_txn 59 Buy 100 10 (- 1000)] 0)
     = [example_lossSale] \<and>
   NoBuyLots ''XYZ'' (dayMs 59) \<notin> set (r_warnings (processTransactions utcZone
      [example_txn 59 Sell 100 6 600, example_txn 59 Buy 100 10 (- 1000)] 0))"
proof (intro conjI)
  let ?X = "[example_txn 59 Sell 100 6 600, example_txn 59 Buy 100 10 (- 1000)]"
  show "r_transactions (processTransactions utcZone ?X 0)
     = [example_txn 59 Buy 100 10 (- 1000), example_txn 59 Sell 100 6 600]"
    by code_simp
  show "r_lossSales (processTransactions utcZone ?X 0) = [example_lossSale]"
    by code_simp
  have b: "\<exists>b \<in> set ?X. buyOn ''XYZ'' (dayMs 59) b"
    by (simp add: buyOn_def example_txn_def)
  have s: "length (filter (sellOn ''XYZ'' (dayMs 59)) ?X) \<le> 1"
    by (simp add: sellOn_def example_txn_def)
  show "NoBuyLots ''XYZ'' (dayMs 59) \<notin> set (r_warnings (processTransactions utcZone ?X 0))"
    using buys_before_sells_same_day [of utcZone ?X 0 "''XYZ''" "dayMs 59"] b s by blast
qed

subsection \<open>Stability of the sort and acquisition order of the queues\<close>

text \<open>The sort is stable: transactions that compare equal keep their input order.\<close>

lemma compareTxn_zero_iff:
  "compareTxn a b = 0 \<longleftrightarrow> t_date a = t_date b \<and> transType a = transType b"
  by (cases "transType a"; cases "transType b") (auto simp: compareTxn_def Let_def)

lemma filter_insertTxn:
  "filter (\<lambda>y. compareTxn y k = 0) (insertTxn x ys) =
     (if compareTxn x k = 0 then x # filter (\<lambda>y. compareTxn y k = 0) ys
      else filter (\<lambda>y. compareTxn y k = 0) ys)"
proof (induction ys)
  case Nil
  show ?case by simp
next
  case (Cons y ys)
  show ?case
  proof (cases "compareTxn x y \<le> 0")
    case True
    then show ?thesis by simp
  next
    case False
    have "compareTxn x y = 0" if "compareTxn x k = 0" "compareTxn y k = 0"
      using that by (simp add: compareTxn_zero_iff)
    with False have "\<not> (compareTxn x k = 0 \<and> compareTxn y k = 0)"
      by auto
    with False Cons.IH show ?thesis by auto
  qed
qed

lemma sortTxns_stable:
  "filter (\<lambda>y. compareTxn y k = 0) (sortTxns xs) = filter (\<lambda>y. compareTxn y k = 0) xs"
  by (induction xs) (simp_all add: sortTxns_def filter_insertTxn)

lemma step_queuesByDate:
  assumes "sorted_wrt txnLe (t # rest)" and "queuesByDate st (t # rest)"
  shows "queuesByDate (step tz T st t) rest"
proof (cases "transType t")
  case Buy
  have le: "\<forall>x \<in> set rest. t_date t \<le> t_date x" using assms(1) txnLe_date by auto
  show ?thesis unfolding queuesByDate_def step_Buy [OF Buy]
  proof (intro allI conjI ballI)
    fix ticker
    show "sorted (map lot_date (queue (processBuy tz st t) ticker))"
      using assms(2) by (auto simp: queuesByDate_def queue_processBuy sorted_append)
    fix l x assume "l \<in> set (queue (processBuy tz st t) ticker)" "x \<in> set rest"
    then show "lot_date l \<le> t_date x"
      using assms(2) le by (auto simp: queuesByDate_def queue_processBuy split: if_splits)
  qed
next
  case Sell
  obtain ls' acc where m: "matchLots (queue st (t_ticker t))
      \<lparr>remainingToSell = t_quantity t, totalCostBasis = 0, quantitySold = 0\<rparr> = (ls', acc)"
    by (cases "matchLots (queue st (t_ticker t))
      \<lparr>remainingToSell = t_quantity t, totalCostBasis = 0, quantitySold = 0\<rparr>")
  have d: "map lot_date ls' = map lot_date (queue st (t_ticker t))"
    using matchLots_fields [OF m] by simp
  have q: "sorted (map lot_date (queue (processSell tz T st t) ticker)) \<and>
           lot_date ` set (queue (processSell tz T st t) ticker)
             \<subseteq> lot_date ` set (queue st ticker)" for ticker
  proof (cases "ticker = t_ticker t")
    case False
    with assms(2) show ?thesis by (simp add: queue_processSell_other queuesByDate_def)
  next
    case True
    have s: "sorted (map lot_date ls')" using assms(2) d by (simp add: queuesByDate_def)
    have "lot_date ` set (filter (\<lambda>l. remaining l > 0.0001) ls') \<subseteq> set (map lot_date ls')"
      by auto
    then have sub: "lot_date ` set (filter (\<lambda>l. remaining l > 0.0001) ls')
                 \<subseteq> lot_date ` set (queue st (t_ticker t))"
      unfolding d by simp
    show ?thesis
      using assms(2) s sub sorted_filter [of lot_date ls' "\<lambda>l. remaining l > 0.0001"]
      unfolding True queue_processSell_same [OF m] by (simp add: queuesByDate_def)
  qed
  show ?thesis unfolding queuesByDate_def step_Sell [OF Sell]
  proof (intro allI conjI ballI)
    fix ticker
    show "sorted (map lot_date (queue (processSell tz T st t) ticker))" using q by blast
    fix l x assume l: "l \<in> set (queue (processSell tz T st t) ticker)" and x: "x \<in> set rest"
    from l q obtain l0 where "l0 \<in> set (queue st ticker)" "lot_date l0 = lot_date l"
      by (metis (no_types, lifting) image_iff subsetD)
    moreover have "lot_date l0 \<le> t_date x"
      using assms(2) x \<open>l0 \<in> set (queue st ticker)\<close> by (simp add: queuesByDate_def)
    ultimately show "lot_date l \<le> t_date x" by simp
  qed
qed

lemma run_queues_acquisition_order:
  "sorted (map lot_date (queue (run tz T initialState (sortTxns txns)) ticker))"
proof -
  have start: "queuesByDate initialState (sortTxns txns)"
    by (simp add: queuesByDate_def queue_def initialState_def)
  have keep: "queuesByDate (step tz T st t) rest"
    if "sorted_wrt txnLe (t # rest)" "queuesByDate st (t # rest)" for st t rest
    using that by (rule step_queuesByDate)
  have "queuesByDate (run tz T initialState (sortTxns txns)) []"
    by (rule run_invariant [of "sortTxns txns" queuesByDate, OF sorted_sortTxns start keep])
  then show ?thesis by (simp add: queuesByDate_def)
qed

subsection \<open>A sell against the queue\<close>

lemma matchLots_lots:
  assumes "matchLots ls acc = (ls', acc')"
    and "\<forall>l \<in> set ls. 0 < remaining l"
    and "0 \<le> remainingToSell acc"
  shows "ls' = map2 (\<lambda>l c. l\<lparr>remaining := remaining l - c\<rparr>) ls
                 (fifoConsume (map remaining ls) (remainingToSell acc))"
  using assms
proof (induction ls arbitrary: acc ls' acc')
  case Nil
  then show ?case by simp
next
  case (Cons l ls)
  show ?case
  proof (cases "remainingToSell acc \<le> 0")
    case True
    with Cons.prems(3) have z: "remainingToSell acc = 0" by simp
    from Cons.prems(1) True have eq: "ls' = l # ls" by simp
    have pos: "\<forall>r \<in> set (map remaining (l # ls)). 0 < r" using Cons.prems(2) by simp
    have fc: "fifoConsume (map remaining (l # ls)) 0 = map (\<lambda>_. 0) (map remaining (l # ls))"
      by (rule fifoConsume_zero [OF pos])
    have "map2 (\<lambda>l c. l\<lparr>remaining := remaining l - c\<rparr>) xs (map (\<lambda>_. 0) (map remaining xs)) = xs"
      for xs :: "lot list"
      by (induction xs) simp_all
    then show ?thesis unfolding z fc eq by simp
  next
    case False
    have lpos: "0 < remaining l" using Cons.prems(2) by simp
    define take where "take = min (remaining l) (remainingToSell acc)"
    define acc1 where "acc1 = \<lparr>remainingToSell = remainingToSell acc - take,
                 totalCostBasis = totalCostBasis acc + take * lot_price l,
                 quantitySold = quantitySold acc + take\<rparr>"
    obtain ls1 acc2 where m: "matchLots ls acc1 = (ls1, acc2)" by (cases "matchLots ls acc1")
    from Cons.prems(1) False lpos m
    have eq: "ls' = l\<lparr>remaining := remaining l - take\<rparr> # ls1"
      by (simp add: Let_def take_def acc1_def)
    have nn: "0 \<le> remainingToSell acc1" by (simp add: acc1_def take_def)
    have open_rest: "\<forall>l \<in> set ls. 0 < remaining l" using Cons.prems(2) by simp
    note ih = Cons.IH [OF m open_rest nn]
    have r1: "remainingToSell acc1 = remainingToSell acc - take" by (simp add: acc1_def)
    have fc: "fifoConsume (map remaining (l # ls)) (remainingToSell acc) =
                take # fifoConsume (map remaining ls) (remainingToSell acc - take)"
      by (simp add: take_def Let_def)
    show ?thesis unfolding fc eq using ih unfolding r1 by simp
  qed
qed

lemma fifoConsume_nonneg:
  "\<forall>r \<in> set rs. 0 < r \<Longrightarrow> 0 \<le> q \<Longrightarrow> \<forall>c \<in> set (fifoConsume rs q). 0 \<le> c"
proof (induction rs arbitrary: q)
  case Nil
  show ?case by simp
next
  case (Cons r rs)
  have "\<forall>c \<in> set (fifoConsume rs (q - min r q)). 0 \<le> c"
    by (rule Cons.IH) (use Cons.prems in auto)
  with Cons.prems show ?case by (simp add: Let_def)
qed

lemma fifoConsume_positive:
  assumes "rs \<noteq> []" and "\<forall>r \<in> set rs. 0 < r" and "0 < q"
  shows "0 < sum_list (fifoConsume rs q)"
proof -
  from assms(1) obtain r rest where rs: "rs = r # rest" by (cases rs) auto
  have "\<forall>c \<in> set (fifoConsume rest (q - min r q)). 0 \<le> c"
    by (rule fifoConsume_nonneg) (use assms rs in auto)
  then have "0 \<le> sum_list (fifoConsume rest (q - min r q))" by (intro sum_list_nonneg) auto
  moreover have "0 < min r q" using assms rs by simp
  ultimately show ?thesis by (simp add: rs Let_def del: min_less_iff_conj)
qed

text \<open>
  C1. A sell of quantity \<open>Q\<close> takes the open lots of its ticker from the head of the
  queue, \<open>min(lot.remaining, stillNeeded)\<close> from each: the queue after the sell holds the
  lots that keep more than 0.0001, each reduced by what was taken, and the sell is judged
  on the matched cost basis, the sum of taken quantity times unit price of the lot. A buy
  appends its lot at the tail, and every queue of the pass is in order of acquisition date.
\<close>

theorem sell_consumes_fifo:
  assumes "\<forall>l \<in> set (queue st (t_ticker t)). 0 < remaining l" and "0 < t_quantity t"
  shows "queue (processSell tz T st t) (t_ticker t) =
           filter (\<lambda>l. remaining l > 0.0001)
             (map2 (\<lambda>l c. l\<lparr>remaining := remaining l - c\<rparr>) (queue st (t_ticker t))
                (fifoConsume (map remaining (queue st (t_ticker t))) (t_quantity t))) \<and>
         lossSales (processSell tz T st t) =
           (let consumed = fifoConsume (map remaining (queue st (t_ticker t))) (t_quantity t);
                matchedQuantity = sum_list consumed;
                matchedCostBasis =
                  sum_list (map2 (*) consumed (map lot_price (queue st (t_ticker t))));
                prcds = amount t * (matchedQuantity / t_quantity t)
            in if 0 < matchedQuantity \<and> prcds < matchedCostBasis
               then lossSales st @
                    [\<lparr>ls_ticker = t_ticker t, saleDate = t_date t,
                      ls_quantity = matchedQuantity, salePrice = t_price t,
                      proceeds = prcds, costBasis = matchedCostBasis,
                      lossAmount = matchedCostBasis - prcds\<rparr>]
               else lossSales st) \<and>
         queue (processBuy tz st b) (t_ticker b) =
           queue st (t_ticker b) @
             [\<lparr>lot_date = t_date b, lot_quantity = t_quantity b,
               lot_price = t_price b, remaining = t_quantity b\<rparr>] \<and>
         sorted (map lot_date (queue (run tz T initialState (sortTxns txns)) ticker))"
proof (intro conjI)
  let ?q = "queue st (t_ticker t)"
  let ?c = "fifoConsume (map remaining ?q) (t_quantity t)"
  obtain ls' acc where m: "matchLots ?q
      \<lparr>remainingToSell = t_quantity t, totalCostBasis = 0, quantitySold = 0\<rparr> = (ls', acc)"
    by (cases "matchLots ?q
      \<lparr>remainingToSell = t_quantity t, totalCostBasis = 0, quantitySold = 0\<rparr>")
  from matchLots_consumes [OF m assms(1)] assms(2)
  have cb: "totalCostBasis acc = sum_list (map2 (*) ?c (map lot_price ?q))"
    and qs: "quantitySold acc = sum_list ?c"
    by simp_all
  have ls': "ls' = map2 (\<lambda>l c. l\<lparr>remaining := remaining l - c\<rparr>) ?q ?c"
    using matchLots_lots [OF m assms(1)] assms(2) by simp
  show "queue (processSell tz T st t) (t_ticker t) =
           filter (\<lambda>l. remaining l > 0.0001)
             (map2 (\<lambda>l c. l\<lparr>remaining := remaining l - c\<rparr>) ?q ?c)"
  proof (cases "?q = []")
    case True
    with m have "quantitySold acc = 0" by auto
    with True show ?thesis by (simp add: queue_processSell_same [OF m])
  next
    case False
    have "0 < sum_list ?c"
      by (rule fifoConsume_positive) (use False assms in auto)
    then show ?thesis by (simp add: queue_processSell_same [OF m] qs ls')
  qed
  show "lossSales (processSell tz T st t) =
           (let consumed = ?c;
                matchedQuantity = sum_list consumed;
                matchedCostBasis = sum_list (map2 (*) consumed (map lot_price ?q));
                prcds = amount t * (matchedQuantity / t_quantity t)
            in if 0 < matchedQuantity \<and> prcds < matchedCostBasis
               then lossSales st @
                    [\<lparr>ls_ticker = t_ticker t, saleDate = t_date t,
                      ls_quantity = matchedQuantity, salePrice = t_price t,
                      proceeds = prcds, costBasis = matchedCostBasis,
                      lossAmount = matchedCostBasis - prcds\<rparr>]
               else lossSales st)"
    using processSell_lossSales [OF m, of tz T] by (simp add: cb qs Let_def)
  show "queue (processBuy tz st b) (t_ticker b) =
           queue st (t_ticker b) @
             [\<lparr>lot_date = t_date b, lot_quantity = t_quantity b,
               lot_price = t_price b, remaining = t_quantity b\<rparr>]"
    by (simp add: queue_processBuy)
  show "sorted (map lot_date (queue (run tz T initialState (sortTxns txns)) ticker))"
    by (rule run_queues_acquisition_order)
qed

text \<open>
  The example of the specification: lots (10 @ 5) and (10 @ 7), bought in that order, and a
  sell of 15 give a matched cost basis of 85 and leave the single lot (5 @ 7), in one sell
  step and in the whole pass.
\<close>

theorem sell_consumes_fifo_witness:
  "queue afterTwoBuys ''XYZ'' =
     [\<lparr>lot_date = dayMs 0, lot_quantity = 10, lot_price = 5, remaining = 10\<rparr>,
      \<lparr>lot_date = dayMs 1, lot_quantity = 10, lot_price = 7, remaining = 10\<rparr>] \<and>
   queue (processSell utcZone [] afterTwoBuys (example_txn 2 Sell 15 5 75)) ''XYZ'' =
     [\<lparr>lot_date = dayMs 1, lot_quantity = 10, lot_price = 7, remaining = 5\<rparr>] \<and>
   lossSales (processSell utcZone [] afterTwoBuys (example_txn 2 Sell 15 5 75)) =
     [\<lparr>ls_ticker = ''XYZ'', saleDate = dayMs 2, ls_quantity = 15, salePrice = 5,
       proceeds = 75, costBasis = 85, lossAmount = 10\<rparr>] \<and>
   r_lossSales (processTransactions utcZone
      [example_txn 2 Sell 15 5 75, example_txn 0 Buy 10 5 (- 50),
       example_txn 1 Buy 10 7 (- 70)] 0) =
     [\<lparr>ls_ticker = ''XYZ'', saleDate = dayMs 2, ls_quantity = 15, salePrice = 5,
       proceeds = 75, costBasis = 85, lossAmount = 10\<rparr>] \<and>
   queue (run utcZone [] initialState
      (sortTxns [example_txn 2 Sell 15 5 75, example_txn 0 Buy 10 5 (- 50),
                 example_txn 1 Buy 10 7 (- 70)])) ''XYZ'' =
     [\<lparr>lot_date = dayMs 1, lot_quantity = 10, lot_price = 7, remaining = 5\<rparr>]"
proof (intro conjI)
  let ?t = "example_txn 2 Sell 15 5 75"
  have tk: "t_ticker ?t = ''XYZ''" "t_date ?t = dayMs 2" "t_quantity ?t = 15"
    "amount ?t = 75" "t_price ?t = 5"
    by (simp_all add: example_txn_def)
  show q: "queue afterTwoBuys ''XYZ'' =
     [\<lparr>lot_date = dayMs 0, lot_quantity = 10, lot_price = 5, remaining = 10\<rparr>,
      \<lparr>lot_date = dayMs 1, lot_quantity = 10, lot_price = 7, remaining = 10\<rparr>]"
  proof -
    have "queue initialState ''XYZ'' = []" by (simp add: queue_def initialState_def)
    then show ?thesis by (simp add: afterTwoBuys_def queue_processBuy example_txn_def)
  qed
  have l: "lossSales afterTwoBuys = []"
    by (simp add: afterTwoBuys_def processBuy_simps initialState_def)
  have o: "\<forall>l \<in> set (queue afterTwoBuys (t_ticker ?t)). 0 < remaining l"
    unfolding tk q by simp
  have p: "0 < t_quantity ?t" unfolding tk by simp
  note c1 = sell_consumes_fifo [OF o p, of utcZone "[]"]
  show "queue (processSell utcZone [] afterTwoBuys ?t) ''XYZ'' =
     [\<lparr>lot_date = dayMs 1, lot_quantity = 10, lot_price = 7, remaining = 5\<rparr>]"
    using c1 unfolding tk q by simp
  show "lossSales (processSell utcZone [] afterTwoBuys ?t) =
     [\<lparr>ls_ticker = ''XYZ'', saleDate = dayMs 2, ls_quantity = 15, salePrice = 5,
       proceeds = 75, costBasis = 85, lossAmount = 10\<rparr>]"
    using c1 unfolding tk q l by (simp add: Let_def)
  show "r_lossSales (processTransactions utcZone
      [?t, example_txn 0 Buy 10 5 (- 50), example_txn 1 Buy 10 7 (- 70)] 0) =
     [\<lparr>ls_ticker = ''XYZ'', saleDate = dayMs 2, ls_quantity = 15, salePrice = 5,
       proceeds = 75, costBasis = 85, lossAmount = 10\<rparr>]"
    by code_simp
  show "queue (run utcZone [] initialState
      (sortTxns [?t, example_txn 0 Buy 10 5 (- 50), example_txn 1 Buy 10 7 (- 70)])) ''XYZ'' =
     [\<lparr>lot_date = dayMs 1, lot_quantity = 10, lot_price = 7, remaining = 5\<rparr>]"
    by code_simp
qed

end
